theory Spec2Isabelle
  imports Main
begin

section \<open>Python values, the store, exceptions\<close>

text \<open>
  The listener layer of \<^verbatim>\<open>robot/output/listeners.py\<close> reads attributes of duck-typed
  domain objects, copies their mutable collections and hands the copies to listener
  code. Scalars and instances are values; a list or a dictionary is an object of the
  store and a value only refers to it (\<open>PRef\<close>), so that two references to one
  collection are visible as such. A new object is allocated at the end of the store.
\<close>

datatype pyval =
    PNone
  | PBool bool
  | PInt int
  | PStr string
  | PObj "(string \<times> pyval) list"
  | PRef nat

datatype pyobj =
    OList "pyval list"
  | ODict "(string \<times> pyval) list"

type_synonym store = "pyobj list"

datatype exc_class =
    AttributeError | TypeError | ValueError | DataError
  | KeyboardInterrupt | SystemExit | MemoryError
  | OtherError string

datatype exc = Exc (exc_class: exc_class) (exc_message: string) (exc_details: string)

type_synonym 'a sres = "(exc + 'a) \<times> store"

definition sbind :: "(store \<Rightarrow> 'a sres) \<Rightarrow> ('a \<Rightarrow> store \<Rightarrow> 'b sres) \<Rightarrow> store \<Rightarrow> 'b sres" where
  "sbind m f h = (case m h of (Inl e, h') \<Rightarrow> (Inl e, h') | (Inr x, h') \<Rightarrow> f x h')"

definition spure :: "exc + 'a \<Rightarrow> store \<Rightarrow> 'a sres" where
  "spure r h = (r, h)"

definition attribute_error :: "string \<Rightarrow> exc" where
  "attribute_error n = Exc AttributeError n []"

text \<open>\<open>getattr(item, name)\<close>: only an instance has the attributes the layer asks for.\<close>

definition getattr :: "pyval \<Rightarrow> string \<Rightarrow> exc + pyval" where
  "getattr item n =
     (case item of
        PObj attrs \<Rightarrow> (case map_of attrs n of Some v \<Rightarrow> Inr v | None \<Rightarrow> Inl (attribute_error n))
      | _ \<Rightarrow> Inl (attribute_error n))"

text \<open>Truth value of a Python value, as \<open>if v\<close>, \<open>v or d\<close> and \<open>bool(v)\<close> take it.\<close>

definition truthy :: "store \<Rightarrow> pyval \<Rightarrow> bool" where
  "truthy h v =
     (case v of
        PNone \<Rightarrow> False
      | PBool b \<Rightarrow> b
      | PInt i \<Rightarrow> i \<noteq> 0
      | PStr s \<Rightarrow> s \<noteq> []
      | PObj _ \<Rightarrow> True
      | PRef a \<Rightarrow> a < length h \<and> (case h ! a of OList xs \<Rightarrow> xs \<noteq> [] | ODict kvs \<Rightarrow> kvs \<noteq> []))"

definition py_or :: "store \<Rightarrow> pyval \<Rightarrow> pyval \<Rightarrow> pyval" where
  "py_or h a b = (if truthy h a then a else b)"

definition yes_no :: "store \<Rightarrow> pyval \<Rightarrow> pyval" where
  "yes_no h v = PStr (if truthy h v then ''yes'' else ''no'')"

text \<open>
  \<open>is_dict_like\<close> and \<open>is_list_like\<close> of \<^verbatim>\<open>robot.utils\<close>: a mapping, and anything
  iterable that is not a string (a mapping is iterable too).
\<close>

definition is_dict_like :: "store \<Rightarrow> pyval \<Rightarrow> bool" where
  "is_dict_like h v =
     (case v of
        PRef a \<Rightarrow> a < length h \<and> (case h ! a of ODict _ \<Rightarrow> True | OList _ \<Rightarrow> False)
      | _ \<Rightarrow> False)"

definition is_list_like :: "store \<Rightarrow> pyval \<Rightarrow> bool" where
  "is_list_like h v = (case v of PRef a \<Rightarrow> a < length h | _ \<Rightarrow> False)"

definition alloc :: "pyobj \<Rightarrow> store \<Rightarrow> pyval sres" where
  "alloc ob h = (Inr (PRef (length h)), h @ [ob])"

text \<open>Iterating a value: the elements of a list, the keys of a dictionary, the
  characters of a string; anything else is not iterable.\<close>

definition py_iter :: "store \<Rightarrow> pyval \<Rightarrow> exc + pyval list" where
  "py_iter h v =
     (case v of
        PRef a \<Rightarrow>
          (if a < length h
           then (case h ! a of OList xs \<Rightarrow> Inr xs | ODict kvs \<Rightarrow> Inr (map (\<lambda>kv. PStr (fst kv)) kvs))
           else Inl (Exc TypeError ''not iterable'' []))
      | PStr s \<Rightarrow> Inr (map (\<lambda>c. PStr [c]) s)
      | _ \<Rightarrow> Inl (Exc TypeError ''not iterable'' []))"

text \<open>\<open>dict(value)\<close> and \<open>list(value)\<close>: a new object with the same entries.\<close>

definition py_dict :: "pyval \<Rightarrow> store \<Rightarrow> pyval sres" where
  "py_dict v h =
     (case v of
        PRef a \<Rightarrow>
          (if a < length h
           then (case h ! a of
                   ODict kvs \<Rightarrow> alloc (ODict kvs) h
                 | OList _ \<Rightarrow> (Inl (Exc TypeError ''cannot convert to dict'' []), h))
           else (Inl (Exc TypeError ''cannot convert to dict'' []), h))
      | _ \<Rightarrow> (Inl (Exc TypeError ''cannot convert to dict'' []), h))"

definition py_list :: "pyval \<Rightarrow> store \<Rightarrow> pyval sres" where
  "py_list v h =
     (case py_iter h v of Inl e \<Rightarrow> (Inl e, h) | Inr xs \<Rightarrow> alloc (OList xs) h)"

section \<open>Payload construction\<close>

text \<open>A payload is a dictionary with string keys, kept as an association list with
  distinct keys; \<open>dict_set\<close> is \<open>d[k] = v\<close> and \<open>dict_update\<close> is \<open>d.update(e)\<close>.\<close>

type_synonym payload = "(string \<times> pyval) list"

fun dict_set :: "string \<Rightarrow> pyval \<Rightarrow> payload \<Rightarrow> payload" where
  "dict_set k v [] = [(k, v)]"
| "dict_set k v ((k', v') # d) = (if k' = k then (k, v) # d else (k', v') # dict_set k v d)"

fun dict_update :: "payload \<Rightarrow> payload \<Rightarrow> payload" where
  "dict_update d [] = d"
| "dict_update d ((k, v) # e) = dict_update (dict_set k v d) e"

definition dict_of_pairs :: "(string \<times> pyval) list \<Rightarrow> payload" where
  "dict_of_pairs kvs = dict_update [] kvs"

definition start_attrs :: "string list" where
  "start_attrs = [''id'', ''doc'', ''starttime'', ''longname'']"

definition end_attrs :: "string list" where
  "end_attrs = start_attrs @ [''endtime'', ''elapsedtime'', ''status'', ''message'']"

definition kw_extra_attrs :: "string list" where
  "kw_extra_attrs = [''args'', ''assign'', ''kwname'', ''libname'',
                      ''-id'', ''-longname'', ''-message'']"

definition startswith_dash :: "string \<Rightarrow> bool" where
  "startswith_dash n = (case n of [] \<Rightarrow> False | c # _ \<Rightarrow> c = CHR ''-'')"

fun attr_names_loop :: "string list \<Rightarrow> string list \<Rightarrow> string list" where
  "attr_names_loop names [] = names"
| "attr_names_loop names (n # extra) =
     attr_names_loop
       (if \<not> startswith_dash n then names @ [n]
        else if tl n \<in> set names then remove1 (tl n) names
        else names)
       extra"

definition get_attr_names :: "string list \<Rightarrow> string list \<Rightarrow> string list" where
  "get_attr_names dflt extra = attr_names_loop dflt extra"

definition take_copy_of_mutable_value :: "pyval \<Rightarrow> store \<Rightarrow> pyval sres" where
  "take_copy_of_mutable_value v h =
     (if is_dict_like h v then py_dict v h
      else if is_list_like h v then py_list v h
      else (Inr v, h))"

definition get_attr_value :: "pyval \<Rightarrow> string \<Rightarrow> store \<Rightarrow> pyval sres" where
  "get_attr_value item n = sbind (spure (getattr item n)) take_copy_of_mutable_value"

fun attr_items :: "pyval \<Rightarrow> string list \<Rightarrow> store \<Rightarrow> (string \<times> pyval) list sres" where
  "attr_items item [] h = (Inr [], h)"
| "attr_items item (n # ns) h =
     sbind (get_attr_value item n)
       (\<lambda>v. sbind (attr_items item ns) (\<lambda>kvs. spure (Inr ((n, v) # kvs)))) h"

definition get_attrs :: "pyval \<Rightarrow> string list \<Rightarrow> string list \<Rightarrow> store \<Rightarrow> payload sres" where
  "get_attrs item dflt extra =
     sbind (attr_items item (get_attr_names dflt extra)) (\<lambda>kvs. spure (Inr (dict_of_pairs kvs)))"

definition get_start_attrs :: "pyval \<Rightarrow> string list \<Rightarrow> store \<Rightarrow> payload sres" where
  "get_start_attrs item extra = get_attrs item start_attrs extra"

definition get_end_attrs :: "pyval \<Rightarrow> string list \<Rightarrow> store \<Rightarrow> payload sres" where
  "get_end_attrs item extra = get_attrs item end_attrs extra"

text \<open>\<open>[t.name for t in items]\<close>: the names in order, or the first failure.\<close>

fun names_of :: "pyval list \<Rightarrow> exc + pyval list" where
  "names_of [] = Inr []"
| "names_of (t # ts) =
     (case getattr t ''name'' of
        Inl e \<Rightarrow> Inl e
      | Inr n \<Rightarrow> (case names_of ts of Inl e \<Rightarrow> Inl e | Inr ns \<Rightarrow> Inr (n # ns)))"

definition name_list :: "pyval \<Rightarrow> string \<Rightarrow> store \<Rightarrow> pyval sres" where
  "name_list item n h =
     (case getattr item n of
        Inl e \<Rightarrow> (Inl e, h)
      | Inr v \<Rightarrow>
          (case py_iter h v of
             Inl e \<Rightarrow> (Inl e, h)
           | Inr ts \<Rightarrow> (case names_of ts of Inl e \<Rightarrow> (Inl e, h) | Inr ns \<Rightarrow> alloc (OList ns) h)))"

definition get_suite_attrs :: "pyval \<Rightarrow> store \<Rightarrow> payload sres" where
  "get_suite_attrs suite =
     sbind (name_list suite ''tests'') (\<lambda>tests.
     sbind (name_list suite ''suites'') (\<lambda>suites.
     sbind (spure (getattr suite ''test_count'')) (\<lambda>total.
     sbind (spure (getattr suite ''source'')) (\<lambda>source h.
       (Inr [(''tests'', tests), (''suites'', suites), (''totaltests'', total),
             (''source'', py_or h source (PStr []))], h)))))"

definition create_msg_dict :: "pyval \<Rightarrow> store \<Rightarrow> payload sres" where
  "create_msg_dict msg =
     sbind (spure (getattr msg ''timestamp'')) (\<lambda>ts.
     sbind (spure (getattr msg ''message'')) (\<lambda>text.
     sbind (spure (getattr msg ''level'')) (\<lambda>level.
     sbind (spure (getattr msg ''html'')) (\<lambda>html h.
       (Inr [(''timestamp'', ts), (''message'', text), (''level'', level),
             (''html'', yes_no h html)], h)))))"

section \<open>Listeners and their adapters\<close>

text \<open>
  The public operations of the registry, with their arguments. Listener code is
  outside the repository: a listener's routine is modelled by the name it carries
  (\<open>__name__\<close>), the public operations of the registry it calls back while it runs,
  in order, and the exception it raises at its end, if any.
\<close>

datatype event =
    Start_suite pyval
  | End_suite pyval
  | Start_test pyval
  | End_test pyval
  | Start_keyword pyval
  | End_keyword pyval
  | Imported string pyval pyval
  | Log_message pyval
  | Message pyval
  | Output_file string pyval
  | Close

datatype meth = Meth (meth_name: string) (reentries: "event list") (raises: "exc option")

record listener_obj =
  type_name :: string
  api_version :: "pyval option"
  meths :: "(string \<times> meth) list"

record adapter =
  name :: string
  version :: int
  logger :: listener_obj

datatype spec = ByName string | Instance listener_obj

text \<open>
  The collaborators of adapter construction that are outside the repository:
  \<open>split_args_from_name_or_path\<close> and \<open>os.path.normpath\<close>, and the importer's
  \<open>import_class_or_module\<close>, which returns the instance or fails with a
  \<open>DataError\<close> of the given message.
\<close>

record env =
  split_args_from_name_or_path :: "string \<Rightarrow> string \<times> string list"
  normpath :: "string \<Rightarrow> string"
  import_class_or_module :: "string \<Rightarrow> string list \<Rightarrow> string + listener_obj"

definition methods :: "string list" where
  "methods = [''start_suite'', ''end_suite'', ''start_test'', ''end_test'',
              ''start_keyword'', ''end_keyword'', ''log_message'', ''message'',
              ''output_file'', ''report_file'', ''log_file'', ''debug_file'',
              ''xunit_file'', ''close'', ''library_import'', ''resource_import'',
              ''variables_import'']"

definition quoted :: "string \<Rightarrow> string" where
  "quoted s = [CHR 0x27] @ s @ [CHR 0x27]"

subsection \<open>The integer conversion and string formatting of Python\<close>

definition ord :: "char \<Rightarrow> nat" where
  "ord c = of_char c"

definition is_space :: "char \<Rightarrow> bool" where
  "is_space c = (c \<in> set [CHR '' '', CHR 0x09, CHR 0x0A, CHR 0x0B, CHR 0x0C, CHR 0x0D])"

definition is_digit :: "char \<Rightarrow> bool" where
  "is_digit c = (48 \<le> ord c \<and> ord c \<le> 57)"

definition strip :: "string \<Rightarrow> string" where
  "strip s = rev (dropWhile is_space (rev (dropWhile is_space s)))"

definition digit_val :: "char \<Rightarrow> int" where
  "digit_val c = int (ord c) - 48"

definition digits_val :: "string \<Rightarrow> int" where
  "digits_val ds = foldl (\<lambda>acc c. 10 * acc + digit_val c) 0 ds"

text \<open>\<open>int(s)\<close> for a string: blanks around, an optional sign, decimal digits.\<close>

definition int_of_string :: "string \<Rightarrow> exc + int" where
  "int_of_string s =
     (let t = strip s;
          neg = (t \<noteq> [] \<and> hd t = CHR ''-'');
          ds = (if t \<noteq> [] \<and> (hd t = CHR ''-'' \<or> hd t = CHR ''+'') then tl t else t)
      in if ds \<noteq> [] \<and> list_all is_digit ds
         then Inr (if neg then - digits_val ds else digits_val ds)
         else Inl (Exc ValueError (''invalid literal for int(): '' @ s) []))"

definition py_int :: "pyval \<Rightarrow> exc + int" where
  "py_int v =
     (case v of
        PInt i \<Rightarrow> Inr i
      | PBool b \<Rightarrow> Inr (if b then 1 else 0)
      | PStr s \<Rightarrow> int_of_string s
      | _ \<Rightarrow> Inl (Exc TypeError ''int() argument must be a string or a number'' []))"

fun digits_of :: "nat \<Rightarrow> string" where
  "digits_of n = (if n < 10 then [char_of (48 + n)] else digits_of (n div 10) @ [char_of (48 + n mod 10)])"

definition str_of_int :: "int \<Rightarrow> string" where
  "str_of_int i = (if i < 0 then CHR ''-'' # digits_of (nat (- i)) else digits_of (nat i))"

text \<open>\<open>'%s' % v\<close>: exact on scalars; an instance or a collection is shown by a fixed
  placeholder, its text being of no consequence here.\<close>

definition py_str :: "pyval \<Rightarrow> string" where
  "py_str v =
     (case v of
        PNone \<Rightarrow> ''None''
      | PBool b \<Rightarrow> (if b then ''True'' else ''False'')
      | PInt i \<Rightarrow> str_of_int i
      | PStr s \<Rightarrow> s
      | PObj _ \<Rightarrow> ''<object>''
      | PRef _ \<Rightarrow> ''<collection>'')"

definition is_lower :: "char \<Rightarrow> bool" where
  "is_lower c = (97 \<le> ord c \<and> ord c \<le> 122)"

definition is_upper :: "char \<Rightarrow> bool" where
  "is_upper c = (65 \<le> ord c \<and> ord c \<le> 90)"

definition to_lower :: "char \<Rightarrow> char" where
  "to_lower c = (if is_upper c then char_of (ord c + 32) else c)"

definition to_upper :: "char \<Rightarrow> char" where
  "to_upper c = (if is_lower c then char_of (ord c - 32) else c)"

definition lower :: "string \<Rightarrow> string" where
  "lower s = map to_lower s"

text \<open>\<open>s.title()\<close>: a letter that follows a letter is lowered, any other letter raised.\<close>

fun title_from :: "bool \<Rightarrow> string \<Rightarrow> string" where
  "title_from prev [] = []"
| "title_from prev (c # cs) =
     (if is_lower c \<or> is_upper c
      then (if prev then to_lower c else to_upper c) # title_from True cs
      else c # title_from False cs)"

definition title :: "string \<Rightarrow> string" where
  "title s = title_from False s"

subsection \<open>ListenerProxy\<close>

definition import_listener :: "env \<Rightarrow> spec \<Rightarrow> exc + listener_obj \<times> string" where
  "import_listener ev sp =
     (case sp of
        Instance l \<Rightarrow> Inr (l, type_name l)
      | ByName s \<Rightarrow>
          (case split_args_from_name_or_path ev s of
             (nm, args) \<Rightarrow>
               (case import_class_or_module ev (normpath ev nm) args of
                  Inl msg \<Rightarrow> Inl (Exc DataError msg [])
                | Inr l \<Rightarrow> Inr (l, nm))))"

text \<open>The body of the \<open>try\<close> of \<open>_get_version\<close>.\<close>

definition read_version :: "listener_obj \<Rightarrow> exc + int" where
  "read_version l =
     (case api_version l of
        None \<Rightarrow> Inl (attribute_error ''ROBOT_LISTENER_API_VERSION'')
      | Some v \<Rightarrow>
          (case py_int v of
             Inl e \<Rightarrow> Inl e
           | Inr i \<Rightarrow> (if i \<noteq> 2 then Inl (Exc ValueError [] []) else Inr i)))"

definition missing_version_message :: "string \<Rightarrow> string" where
  "missing_version_message nm =
     ''Listener '' @ quoted nm @ '' does not have mandatory '' @
     quoted ''ROBOT_LISTENER_API_VERSION'' @ '' attribute.''"

definition unsupported_version_message :: "string \<Rightarrow> pyval \<Rightarrow> string" where
  "unsupported_version_message nm v =
     ''Listener '' @ quoted nm @ '' uses unsupported API version '' @ quoted (py_str v) @ ''.''"

definition get_version :: "string \<Rightarrow> listener_obj \<Rightarrow> exc + int" where
  "get_version nm l =
     (case read_version l of
        Inr i \<Rightarrow> Inr i
      | Inl e \<Rightarrow>
          (if exc_class e = AttributeError
           then Inl (Exc DataError (missing_version_message nm) [])
           else if exc_class e = ValueError \<or> exc_class e = TypeError
           then (case api_version l of
                   None \<Rightarrow> Inl (attribute_error ''ROBOT_LISTENER_API_VERSION'')
                 | Some v \<Rightarrow> Inl (Exc DataError (unsupported_version_message nm v) []))
           else Inl e))"

definition ListenerProxy :: "env \<Rightarrow> spec \<Rightarrow> exc + adapter" where
  "ListenerProxy ev sp =
     (case import_listener ev sp of
        Inl e \<Rightarrow> Inl e
      | Inr (l, nm) \<Rightarrow>
          (case get_version nm l of
             Inl e \<Rightarrow> Inl e
           | Inr v \<Rightarrow> Inr \<lparr>name = nm, version = v, logger = l\<rparr>))"

text \<open>
  Modelled from the spec: \<open>AbstractLoggerProxy.__init__\<close> of
  \<^verbatim>\<open>robot/output/loggerhelper.py\<close>, which is not among the sources. It gives the
  adapter one attribute for each name of \<open>_methods\<close>: the listener's routine of that
  name where the listener has one, and a routine that does nothing otherwise (the
  adapter only forwards to methods that exist on the wrapped instance). Any other
  name is no attribute of the adapter that is a routine.
\<close>

definition no_method :: meth where
  "no_method = Meth ''<lambda>'' [] None"

definition proxy_attr :: "adapter \<Rightarrow> string \<Rightarrow> exc + meth" where
  "proxy_attr p n =
     (if n \<in> set methods
      then Inr (case map_of (meths (logger p)) n of Some m \<Rightarrow> m | None \<Rightarrow> no_method)
      else Inl (attribute_error n))"

section \<open>The registry\<close>

text \<open>
  The state holds the fields of the \<open>Listeners\<close> instance (\<open>listeners\<close> is \<open>None\<close>
  while the attribute \<open>_listeners\<close> has never been assigned), the store, the entries
  the run-wide \<open>LOGGER\<close> has received, and the calls of \<open>call_method\<close> in the order
  they were made.
\<close>

datatype level = ERROR | INFO

datatype arg = Val pyval | Attrs payload

datatype call = Call (receiver: string) (called: string) (call_args: "arg list")

record state =
  listeners :: "adapter list option"
  running_test :: bool
  setup_or_teardown_type :: "string option"
  recursion :: bool
  store :: store
  log :: "(level \<times> string) list"
  calls :: "call list"

type_synonym 'a res = "(exc + 'a) \<times> state"

text \<open>A computation that calls listener code may not return: \<open>None\<close>.\<close>

type_synonym 'a comp = "state \<Rightarrow> 'a res option"

definition in_store :: "(store \<Rightarrow> 'a sres) \<Rightarrow> state \<Rightarrow> 'a res" where
  "in_store f s = (case f (store s) of (r, h) \<Rightarrow> (r, s\<lparr>store := h\<rparr>))"

definition tbind :: "(state \<Rightarrow> 'a res) \<Rightarrow> ('a \<Rightarrow> state \<Rightarrow> 'b res) \<Rightarrow> state \<Rightarrow> 'b res" where
  "tbind m f s = (case m s of (Inl e, s') \<Rightarrow> (Inl e, s') | (Inr x, s') \<Rightarrow> f x s')"

definition tpure :: "exc + 'a \<Rightarrow> state \<Rightarrow> 'a res" where
  "tpure r s = (r, s)"

subsection \<open>Construction\<close>

definition LOGGER_error :: "string \<Rightarrow> (level \<times> string) list \<Rightarrow> (level \<times> string) list" where
  "LOGGER_error msg lg = lg @ [(ERROR, msg)]"

definition LOGGER_info :: "string \<Rightarrow> (level \<times> string) list \<Rightarrow> (level \<times> string) list" where
  "LOGGER_info msg lg = lg @ [(INFO, msg)]"

definition spec_display_name :: "spec \<Rightarrow> string" where
  "spec_display_name sp = (case sp of ByName s \<Rightarrow> s | Instance l \<Rightarrow> type_name l)"

definition taking_into_use_failed :: "spec \<Rightarrow> string \<Rightarrow> string" where
  "taking_into_use_failed sp msg =
     ''Taking listener '' @ quoted (spec_display_name sp) @ '' into use failed: '' @ msg"

fun import_listeners ::
  "env \<Rightarrow> spec list \<Rightarrow> (level \<times> string) list \<Rightarrow> (exc + adapter list) \<times> (level \<times> string) list" where
  "import_listeners ev [] lg = (Inr [], lg)"
| "import_listeners ev (sp # sps) lg =
     (case ListenerProxy ev sp of
        Inr p \<Rightarrow>
          (case import_listeners ev sps lg of
             (Inl e, lg') \<Rightarrow> (Inl e, lg')
           | (Inr ps, lg') \<Rightarrow> (Inr (p # ps), lg'))
      | Inl e \<Rightarrow>
          (if exc_class e = DataError
           then import_listeners ev sps (LOGGER_error (taking_into_use_failed sp (exc_message e)) lg)
           else (Inl e, lg)))"

text \<open>\<open>new_instance\<close> is the instance \<open>__init__\<close> receives: no attribute assigned yet,
  and \<open>_recursion\<close> read from the class, where the decorator set it to false.\<close>

definition new_instance :: "store \<Rightarrow> (level \<times> string) list \<Rightarrow> state" where
  "new_instance h lg =
     \<lparr>listeners = None, running_test = False, setup_or_teardown_type = None,
      recursion = False, store = h, log = lg, calls = []\<rparr>"

definition init :: "env \<Rightarrow> spec list option \<Rightarrow> state \<Rightarrow> unit res" where
  "init ev specs s =
     (case specs of
        None \<Rightarrow> (Inr (), s\<lparr>running_test := False, setup_or_teardown_type := None\<rparr>)
      | Some sps \<Rightarrow>
          (case import_listeners ev sps (log s) of
             (Inl e, lg) \<Rightarrow> (Inl e, s\<lparr>log := lg\<rparr>)
           | (Inr ps, lg) \<Rightarrow>
               (Inr (), s\<lparr>listeners := Some ps, log := lg,
                          running_test := False, setup_or_teardown_type := None\<rparr>)))"

definition Listeners :: "env \<Rightarrow> spec list option \<Rightarrow> store \<Rightarrow> (level \<times> string) list \<Rightarrow> unit res" where
  "Listeners ev specs h lg = init ev specs (new_instance h lg)"

definition nonzero :: "state \<Rightarrow> exc + bool" where
  "nonzero s =
     (case listeners s of
        None \<Rightarrow> Inl (attribute_error ''_listeners'')
      | Some ls \<Rightarrow> Inr (ls \<noteq> []))"

subsection \<open>Calling a listener\<close>

text \<open>
  Modelled from the spec: \<open>get_error_details\<close> of \<^verbatim>\<open>robot.utils\<close>, which is not
  among the sources. For the exception being handled it returns the short message
  and the full details that \<open>call_method\<close> logs. The helper does not return for the
  three exceptions that end a run, \<open>KeyboardInterrupt\<close>, \<open>SystemExit\<close> and
  \<open>MemoryError\<close>: it raises them again, from inside the handler of \<open>call_method\<close>.
\<close>

definition reraised_exceptions :: "exc_class list" where
  "reraised_exceptions = [KeyboardInterrupt, SystemExit, MemoryError]"

definition get_error_details :: "exc \<Rightarrow> exc + string \<times> string" where
  "get_error_details e =
     (if exc_class e \<in> set reraised_exceptions then Inl e
      else Inr (exc_message e, exc_details e))"

text \<open>The listener's routine runs: it calls back the public operations \<open>reg\<close> of the
  registry, an exception of such a call ending it, and then returns or raises.\<close>

fun reenter :: "(event \<Rightarrow> unit comp) \<Rightarrow> event list \<Rightarrow> unit comp" where
  "reenter reg [] s = Some (Inr (), s)"
| "reenter reg (e # es) s =
     (case reg e s of
        None \<Rightarrow> None
      | Some (Inl x, s') \<Rightarrow> Some (Inl x, s')
      | Some (Inr u, s') \<Rightarrow> reenter reg es s')"

definition invoke :: "(event \<Rightarrow> unit comp) \<Rightarrow> meth \<Rightarrow> unit comp" where
  "invoke reg m s =
     (case reenter reg (reentries m) s of
        None \<Rightarrow> None
      | Some (Inl x, s') \<Rightarrow> Some (Inl x, s')
      | Some (Inr u, s') \<Rightarrow>
          (case raises m of None \<Rightarrow> Some (Inr (), s') | Some x \<Rightarrow> Some (Inl x, s')))"

definition calling_method_failed :: "meth \<Rightarrow> adapter \<Rightarrow> string \<Rightarrow> string" where
  "calling_method_failed m p message =
     ''Calling method '' @ quoted (meth_name m) @ '' of listener '' @ quoted (name p) @
     '' failed: '' @ message"

definition call_method :: "(event \<Rightarrow> unit comp) \<Rightarrow> adapter \<Rightarrow> meth \<Rightarrow> arg list \<Rightarrow> unit comp" where
  "call_method reg p m args s =
     (case invoke reg m (s\<lparr>calls := calls s @ [Call (name p) (meth_name m) args]\<rparr>) of
        None \<Rightarrow> None
      | Some (Inr u, s') \<Rightarrow> Some (Inr (), s')
      | Some (Inl x, s') \<Rightarrow>
          (case get_error_details x of
             Inl y \<Rightarrow> Some (Inl y, s')
           | Inr (message, details) \<Rightarrow>
               Some (Inr (),
                 s'\<lparr>log := LOGGER_info (''Details:'' @ [CHR 0x0A] @ details)
                            (LOGGER_error (calling_method_failed m p message) (log s'))\<rparr>)))"

text \<open>\<open>for listener in self._listeners: ...\<close>; an exception of the body ends the loop.\<close>

fun for_listeners :: "(adapter \<Rightarrow> unit comp) \<Rightarrow> adapter list \<Rightarrow> unit comp" where
  "for_listeners f [] s = Some (Inr (), s)"
| "for_listeners f (p # ps) s =
     (case f p s of
        None \<Rightarrow> None
      | Some (Inl x, s') \<Rightarrow> Some (Inl x, s')
      | Some (Inr u, s') \<Rightarrow> for_listeners f ps s')"

definition each_listener :: "(adapter \<Rightarrow> unit comp) \<Rightarrow> unit comp" where
  "each_listener f s =
     (case listeners s of
        None \<Rightarrow> Some (Inl (attribute_error ''_listeners''), s)
      | Some ps \<Rightarrow> for_listeners f ps s)"

text \<open>The statement \<open>listener.call_method(method, args...)\<close> once the method reference
  and the arguments have been evaluated by \<open>prep\<close>.\<close>

definition call_with ::
  "(event \<Rightarrow> unit comp) \<Rightarrow> adapter \<Rightarrow> (state \<Rightarrow> (meth \<times> arg list) res) \<Rightarrow> unit comp" where
  "call_with reg p prep s =
     (case prep s of
        (Inl x, s') \<Rightarrow> Some (Inl x, s')
      | (Inr (m, args), s') \<Rightarrow> call_method reg p m args s')"

text \<open>\<open>(listener.<mname>, item.name, attrs)\<close>, evaluated from left to right.\<close>

definition named_call :: "adapter \<Rightarrow> string \<Rightarrow> pyval \<Rightarrow> payload \<Rightarrow> exc + meth \<times> arg list" where
  "named_call p mname item attrs =
     (case proxy_attr p mname of
        Inl e \<Rightarrow> Inl e
      | Inr m \<Rightarrow>
          (case getattr item ''name'' of
             Inl e \<Rightarrow> Inl e
           | Inr n \<Rightarrow> Inr (m, [Val n, Attrs attrs])))"

subsection \<open>The notifications\<close>

definition start_suite_attrs :: "pyval \<Rightarrow> store \<Rightarrow> payload sres" where
  "start_suite_attrs suite =
     sbind (get_start_attrs suite [''metadata'']) (\<lambda>attrs.
     sbind (get_suite_attrs suite) (\<lambda>more.
       spure (Inr (dict_update attrs more))))"

definition start_suite :: "(event \<Rightarrow> unit comp) \<Rightarrow> pyval \<Rightarrow> unit comp" where
  "start_suite reg suite =
     each_listener (\<lambda>listener.
       call_with reg listener
         (tbind (in_store (start_suite_attrs suite)) (\<lambda>attrs.
            tpure (named_call listener ''start_suite'' suite attrs))))"

definition end_suite_attrs :: "pyval \<Rightarrow> store \<Rightarrow> payload sres" where
  "end_suite_attrs suite =
     sbind (get_end_attrs suite [''metadata'']) (\<lambda>attrs.
     sbind (spure (getattr suite ''stat_message'')) (\<lambda>stat.
     sbind (get_suite_attrs suite) (\<lambda>more.
       spure (Inr (dict_update (dict_set ''statistics'' stat attrs) more)))))"

definition notify_end_suite :: "(event \<Rightarrow> unit comp) \<Rightarrow> adapter \<Rightarrow> pyval \<Rightarrow> unit comp" where
  "notify_end_suite reg listener suite =
     call_with reg listener
       (tbind (in_store (end_suite_attrs suite)) (\<lambda>attrs.
          tpure (named_call listener ''end_suite'' suite attrs)))"

definition end_suite :: "(event \<Rightarrow> unit comp) \<Rightarrow> pyval \<Rightarrow> unit comp" where
  "end_suite reg suite = each_listener (\<lambda>listener. notify_end_suite reg listener suite)"

text \<open>The two entries every test payload gets after the copied attributes.\<close>

definition critical_and_template :: "pyval \<Rightarrow> payload \<Rightarrow> store \<Rightarrow> payload sres" where
  "critical_and_template test attrs =
     sbind (spure (getattr test ''critical'')) (\<lambda>critical.
     sbind (spure (getattr test ''template'')) (\<lambda>template h.
       (Inr (dict_set ''template'' (py_or h template (PStr []))
              (dict_set ''critical'' (yes_no h critical) attrs)), h)))"

definition start_test_attrs :: "pyval \<Rightarrow> store \<Rightarrow> payload sres" where
  "start_test_attrs test = sbind (get_start_attrs test [''tags'']) (critical_and_template test)"

definition start_test :: "(event \<Rightarrow> unit comp) \<Rightarrow> pyval \<Rightarrow> unit comp" where
  "start_test reg test s =
     each_listener (\<lambda>listener.
       call_with reg listener
         (tbind (in_store (start_test_attrs test)) (\<lambda>attrs.
            tpure (named_call listener ''start_test'' test attrs))))
       (s\<lparr>running_test := True\<rparr>)"

definition end_test_attrs :: "pyval \<Rightarrow> store \<Rightarrow> payload sres" where
  "end_test_attrs test = sbind (get_end_attrs test [''tags'']) (critical_and_template test)"

definition notify_end_test :: "(event \<Rightarrow> unit comp) \<Rightarrow> adapter \<Rightarrow> pyval \<Rightarrow> unit comp" where
  "notify_end_test reg listener test =
     call_with reg listener
       (tbind (in_store (end_test_attrs test)) (\<lambda>attrs.
          tpure (named_call listener ''end_test'' test attrs)))"

definition end_test :: "(event \<Rightarrow> unit comp) \<Rightarrow> pyval \<Rightarrow> unit comp" where
  "end_test reg test s =
     each_listener (\<lambda>listener. notify_end_test reg listener test) (s\<lparr>running_test := False\<rparr>)"

definition get_setup_or_teardown_type :: "pyval \<Rightarrow> state \<Rightarrow> exc + string" where
  "get_setup_or_teardown_type kw s =
     (case getattr kw ''type'' of
        Inl e \<Rightarrow> Inl e
      | Inr t \<Rightarrow>
          (case t of
             PStr ty \<Rightarrow> Inr ((if running_test s then ''Test'' else ''Suite'') @ '' '' @ title ty)
           | _ \<Rightarrow> Inl (attribute_error ''title'')))"

definition get_keyword_type :: "pyval \<Rightarrow> bool \<Rightarrow> state \<Rightarrow> string res" where
  "get_keyword_type kw start s =
     (case getattr kw ''type'' of
        Inl e \<Rightarrow> (Inl e, s)
      | Inr t \<Rightarrow>
          (if t = PStr ''kw''
           then (Inr (case setup_or_teardown_type s of
                        None \<Rightarrow> ''Keyword''
                      | Some ty \<Rightarrow> (if ty = [] then ''Keyword'' else ty)), s)
           else (case get_setup_or_teardown_type kw s of
                   Inl e \<Rightarrow> (Inl e, s)
                 | Inr kw_type \<Rightarrow>
                     (Inr kw_type,
                      s\<lparr>setup_or_teardown_type := (if start then Some kw_type else None)\<rparr>))))"

definition keyword_attrs :: "string list \<Rightarrow> pyval \<Rightarrow> bool \<Rightarrow> state \<Rightarrow> payload res" where
  "keyword_attrs dflt kw start =
     tbind (in_store (get_attrs kw dflt kw_extra_attrs)) (\<lambda>attrs.
     tbind (get_keyword_type kw start) (\<lambda>ty.
       tpure (Inr (dict_set ''type'' (PStr ty) attrs))))"

definition start_keyword :: "(event \<Rightarrow> unit comp) \<Rightarrow> pyval \<Rightarrow> unit comp" where
  "start_keyword reg kw =
     each_listener (\<lambda>listener.
       call_with reg listener
         (tbind (keyword_attrs start_attrs kw True) (\<lambda>attrs.
            tpure (named_call listener ''start_keyword'' kw attrs))))"

definition end_keyword :: "(event \<Rightarrow> unit comp) \<Rightarrow> pyval \<Rightarrow> unit comp" where
  "end_keyword reg kw =
     each_listener (\<lambda>listener.
       call_with reg listener
         (tbind (keyword_attrs end_attrs kw False) (\<lambda>attrs.
            tpure (named_call listener ''end_keyword'' kw attrs))))"

definition imported :: "(event \<Rightarrow> unit comp) \<Rightarrow> string \<Rightarrow> pyval \<Rightarrow> pyval \<Rightarrow> unit comp" where
  "imported reg import_type nm attrs =
     each_listener (\<lambda>listener.
       call_with reg listener
         (tpure (case proxy_attr listener (lower import_type @ ''_import'') of
                   Inl e \<Rightarrow> Inl e
                 | Inr m \<Rightarrow> Inr (m, [Val nm, Val attrs]))))"

definition msg_call :: "adapter \<Rightarrow> string \<Rightarrow> pyval \<Rightarrow> state \<Rightarrow> (meth \<times> arg list) res" where
  "msg_call listener mname msg =
     tbind (tpure (proxy_attr listener mname)) (\<lambda>m.
     tbind (in_store (create_msg_dict msg)) (\<lambda>d.
       tpure (Inr (m, [Attrs d]))))"

definition log_message :: "(event \<Rightarrow> unit comp) \<Rightarrow> pyval \<Rightarrow> unit comp" where
  "log_message reg msg =
     each_listener (\<lambda>listener. call_with reg listener (msg_call listener ''log_message'' msg))"

definition message :: "(event \<Rightarrow> unit comp) \<Rightarrow> pyval \<Rightarrow> unit comp" where
  "message reg msg =
     each_listener (\<lambda>listener. call_with reg listener (msg_call listener ''message'' msg))"

definition output_file :: "(event \<Rightarrow> unit comp) \<Rightarrow> string \<Rightarrow> pyval \<Rightarrow> unit comp" where
  "output_file reg file_type path =
     each_listener (\<lambda>listener.
       call_with reg listener
         (tpure (case proxy_attr listener (lower file_type @ ''_file'') of
                   Inl e \<Rightarrow> Inl e
                 | Inr m \<Rightarrow> Inr (m, [Val path]))))"

definition close :: "(event \<Rightarrow> unit comp) \<Rightarrow> unit comp" where
  "close reg =
     each_listener (\<lambda>listener.
       call_with reg listener
         (tpure (case proxy_attr listener ''close'' of
                   Inl e \<Rightarrow> Inl e
                 | Inr m \<Rightarrow> Inr (m, []))))"

subsection \<open>The recursion guard\<close>

text \<open>\<open>unwrapped reg ev\<close> is the method of the class before \<open>no_recursion\<close> wraps it;
  \<open>reg\<close> is the registry as listener code reaches it, through its wrapped methods.\<close>

fun unwrapped :: "(event \<Rightarrow> unit comp) \<Rightarrow> event \<Rightarrow> unit comp" where
  "unwrapped reg (Start_suite suite) = start_suite reg suite"
| "unwrapped reg (End_suite suite) = end_suite reg suite"
| "unwrapped reg (Start_test test) = start_test reg test"
| "unwrapped reg (End_test test) = end_test reg test"
| "unwrapped reg (Start_keyword kw) = start_keyword reg kw"
| "unwrapped reg (End_keyword kw) = end_keyword reg kw"
| "unwrapped reg (Imported import_type nm attrs) = imported reg import_type nm attrs"
| "unwrapped reg (Log_message msg) = log_message reg msg"
| "unwrapped reg (Message msg) = message reg msg"
| "unwrapped reg (Output_file file_type path) = output_file reg file_type path"
| "unwrapped reg Close = close reg"

definition avoid_recursion :: "unit comp \<Rightarrow> unit comp" where
  "avoid_recursion meth_body s =
     (if \<not> recursion s
      then (case meth_body (s\<lparr>recursion := True\<rparr>) of
              None \<Rightarrow> None
            | Some (Inl x, s') \<Rightarrow> Some (Inl x, s')
            | Some (Inr u, s') \<Rightarrow> Some (Inr (), s'\<lparr>recursion := False\<rparr>))
      else Some (Inr (), s))"

text \<open>
  A public operation of the registry, as the run and the listeners call it. The
  first argument bounds how deep the bodies of wrapped methods may nest: with none
  left, a call that has to run a body does not return.
\<close>

primrec notify :: "nat \<Rightarrow> event \<Rightarrow> unit comp" where
  "notify 0 ev = avoid_recursion (\<lambda>s. None)"
| "notify (Suc n) ev = avoid_recursion (unwrapped (notify n) ev)"

text \<open>A run of top-level notifications; an exception reaches the caller and ends it.\<close>

fun notify_all :: "nat \<Rightarrow> event list \<Rightarrow> unit comp" where
  "notify_all n [] s = Some (Inr (), s)"
| "notify_all n (ev # evs) s =
     (case notify n ev s of
        None \<Rightarrow> None
      | Some (Inl x, s') \<Rightarrow> Some (Inl x, s')
      | Some (Inr u, s') \<Rightarrow> notify_all n evs s')"

section \<open>Notions used in the statements\<close>

text \<open>A registry whose operations return at once, changing nothing, when the
  recursion flag is set.\<close>

definition guarded :: "(event \<Rightarrow> unit comp) \<Rightarrow> bool" where
  "guarded reg = (\<forall>ev s. recursion s \<longrightarrow> reg ev s = Some (Inr (), s))"

text \<open>How a call of a routine ends for \<open>call_method\<close>: with the exception the
  routine raises when that is one \<open>get_error_details\<close> raises again, and normally
  otherwise.\<close>

definition outcome :: "meth \<Rightarrow> exc + unit" where
  "outcome m =
     (case raises m of
        None \<Rightarrow> Inr ()
      | Some x \<Rightarrow> (if exc_class x \<in> set reraised_exceptions then Inl x else Inr ()))"

text \<open>What \<open>call_method\<close> logs for one call: nothing when the routine returns or
  raises an exception that is raised again, one error entry and one info entry when
  it raises any other exception.\<close>

definition failure_log :: "adapter \<Rightarrow> meth \<Rightarrow> (level \<times> string) list" where
  "failure_log p m =
     (case raises m of
        None \<Rightarrow> []
      | Some x \<Rightarrow>
          (if exc_class x \<in> set reraised_exceptions then []
           else [(ERROR, calling_method_failed m p (exc_message x)),
                 (INFO, ''Details:'' @ [CHR 0x0A] @ exc_details x)]))"

text \<open>The store only grows: \<open>h'\<close> is \<open>h\<close> followed by newly allocated objects.\<close>

definition extends :: "store \<Rightarrow> store \<Rightarrow> bool" where
  "extends h h' = (\<exists>ext. h' = h @ ext)"

definition sframe :: "(store \<Rightarrow> 'a sres) \<Rightarrow> bool" where
  "sframe f = (\<forall>h. extends h (snd (f h)))"

text \<open>Argument evaluation leaves the flag, the trace, the log, the adapters and
  \<open>running_test\<close> alone, and only adds to the store.\<close>

definition frame :: "(state \<Rightarrow> 'a res) \<Rightarrow> bool" where
  "frame m =
     (\<forall>s. recursion (snd (m s)) = recursion s \<and> calls (snd (m s)) = calls s \<and>
          log (snd (m s)) = log s \<and> listeners (snd (m s)) = listeners s \<and>
          running_test (snd (m s)) = running_test s \<and>
          extends (store s) (store (snd (m s))))"

text \<open>The calls a step from \<open>s\<close> to \<open>s'\<close> has added to the trace.\<close>

definition new_calls :: "state \<Rightarrow> state \<Rightarrow> call list" where
  "new_calls s s' = drop (length (calls s)) (calls s')"

text \<open>
  Every public method has one shape: an assignment to \<open>running_test\<close> for the two
  test notifications, then the loop over the adapters, whose body evaluates a method
  reference and arguments and passes them to \<open>call_method\<close>. \<open>before_loop\<close> and
  \<open>prep_of\<close> name the two parts, so that a fact about all methods is proved once.
\<close>

definition before_loop :: "event \<Rightarrow> state \<Rightarrow> state" where
  "before_loop ev s =
     (case ev of
        Start_test test \<Rightarrow> s\<lparr>running_test := True\<rparr>
      | End_test test \<Rightarrow> s\<lparr>running_test := False\<rparr>
      | _ \<Rightarrow> s)"

definition method_ref :: "adapter \<Rightarrow> string \<Rightarrow> arg list \<Rightarrow> exc + meth \<times> arg list" where
  "method_ref p n args = (case proxy_attr p n of Inl e \<Rightarrow> Inl e | Inr m \<Rightarrow> Inr (m, args))"

definition prep_of :: "event \<Rightarrow> adapter \<Rightarrow> state \<Rightarrow> (meth \<times> arg list) res" where
  "prep_of ev p =
     (case ev of
        Start_suite suite \<Rightarrow>
          tbind (in_store (start_suite_attrs suite)) (\<lambda>attrs.
            tpure (named_call p ''start_suite'' suite attrs))
      | End_suite suite \<Rightarrow>
          tbind (in_store (end_suite_attrs suite)) (\<lambda>attrs.
            tpure (named_call p ''end_suite'' suite attrs))
      | Start_test test \<Rightarrow>
          tbind (in_store (start_test_attrs test)) (\<lambda>attrs.
            tpure (named_call p ''start_test'' test attrs))
      | End_test test \<Rightarrow>
          tbind (in_store (end_test_attrs test)) (\<lambda>attrs.
            tpure (named_call p ''end_test'' test attrs))
      | Start_keyword kw \<Rightarrow>
          tbind (keyword_attrs start_attrs kw True) (\<lambda>attrs.
            tpure (named_call p ''start_keyword'' kw attrs))
      | End_keyword kw \<Rightarrow>
          tbind (keyword_attrs end_attrs kw False) (\<lambda>attrs.
            tpure (named_call p ''end_keyword'' kw attrs))
      | Imported import_type nm attrs \<Rightarrow>
          tpure (method_ref p (lower import_type @ ''_import'') [Val nm, Val attrs])
      | Log_message msg \<Rightarrow> msg_call p ''log_message'' msg
      | Message msg \<Rightarrow> msg_call p ''message'' msg
      | Output_file file_type path \<Rightarrow>
          tpure (method_ref p (lower file_type @ ''_file'') [Val path])
      | Close \<Rightarrow> tpure (method_ref p ''close'' []))"

text \<open>The name of the adapter attribute an event is delivered to, and the routine
  that attribute holds.\<close>

definition event_method :: "event \<Rightarrow> string" where
  "event_method ev =
     (case ev of
        Start_suite suite \<Rightarrow> ''start_suite''
      | End_suite suite \<Rightarrow> ''end_suite''
      | Start_test test \<Rightarrow> ''start_test''
      | End_test test \<Rightarrow> ''end_test''
      | Start_keyword kw \<Rightarrow> ''start_keyword''
      | End_keyword kw \<Rightarrow> ''end_keyword''
      | Imported import_type nm attrs \<Rightarrow> lower import_type @ ''_import''
      | Log_message msg \<Rightarrow> ''log_message''
      | Message msg \<Rightarrow> ''message''
      | Output_file file_type path \<Rightarrow> lower file_type @ ''_file''
      | Close \<Rightarrow> ''close'')"

definition target :: "adapter \<Rightarrow> event \<Rightarrow> meth" where
  "target p ev =
     (case map_of (meths (logger p)) (event_method ev) of Some m \<Rightarrow> m | None \<Rightarrow> no_method)"

text \<open>The keys of the payloads of the two keyword notifications.\<close>

definition start_keyword_keys :: "string set" where
  "start_keyword_keys =
     {''type'', ''doc'', ''starttime'', ''args'', ''assign'', ''kwname'', ''libname''}"

definition end_keyword_keys :: "string set" where
  "end_keyword_keys =
     {''type'', ''doc'', ''starttime'', ''endtime'', ''elapsedtime'', ''status'',
      ''args'', ''assign'', ''kwname'', ''libname''}"

section \<open>Concrete inputs\<close>

text \<open>A loader that knows no listener by name; a listener whose \<open>start_test\<close> raises; a
  listener that declares its version as the string \<open>'2'\<close> and whose \<open>log_message\<close>
  and \<open>start_test\<close> log through the registry again; a test with one tag, the list at
  address 0 of the store.\<close>

definition no_loader :: env where
  "no_loader =
     \<lparr>split_args_from_name_or_path = (\<lambda>s. (s, [])), normpath = (\<lambda>s. s),
      import_class_or_module = (\<lambda>n args. Inl (''Importing listener failed''))\<rparr>"

definition a_message :: pyval where
  "a_message = PObj [(''timestamp'', PStr ''20150101 12:00:00.000''), (''message'', PStr ''hello''),
                     (''level'', PStr ''INFO''), (''html'', PBool False)]"

definition raising_listener :: listener_obj where
  "raising_listener =
     \<lparr>type_name = ''Raising'', api_version = Some (PInt 2),
      meths = [(''start_test'',
                Meth ''start_test'' [] (Some (Exc (OtherError ''RuntimeError'') ''boom'' ''Traceback'')))]\<rparr>"

definition exiting_listener :: listener_obj where
  "exiting_listener =
     \<lparr>type_name = ''Exiting'', api_version = Some (PInt 2),
      meths = [(''start_test'', Meth ''start_test'' [] (Some (Exc SystemExit ''1'' ''Traceback'')))]\<rparr>"

definition chatty_listener :: listener_obj where
  "chatty_listener =
     \<lparr>type_name = ''Chatty'', api_version = Some (PStr ''2''),
      meths = [(''start_test'', Meth ''start_test'' [Log_message a_message] None),
               (''log_message'', Meth ''log_message'' [Log_message a_message] None)]\<rparr>"

definition two_listeners :: state where
  "two_listeners =
     \<lparr>listeners = Some [\<lparr>name = ''Raising'', version = 2, logger = raising_listener\<rparr>,
                        \<lparr>name = ''Chatty'', version = 2, logger = chatty_listener\<rparr>],
      running_test = False, setup_or_teardown_type = None, recursion = False,
      store = [OList [PStr ''smoke''], OList [PStr ''arg''], OList []], log = [], calls = []\<rparr>"

definition a_test :: pyval where
  "a_test =
     PObj [(''name'', PStr ''T1''), (''id'', PStr ''s1-t1''), (''doc'', PStr ''''),
           (''starttime'', PStr ''20150101 12:00:00.000''), (''longname'', PStr ''S.T1''),
           (''tags'', PRef 0), (''critical'', PBool True), (''template'', PNone),
           (''endtime'', PStr ''20150101 12:00:01.000''), (''elapsedtime'', PInt 1000),
           (''status'', PStr ''PASS''), (''message'', PStr '''')]"

section \<open>Well-formed events\<close>

text \<open>Every reference among the entries of a payload is to an object at an address
  from \<open>n\<close> on.\<close>

definition fresh_from :: "nat \<Rightarrow> payload \<Rightarrow> bool" where
  "fresh_from n d = (\<forall>k b. (k, PRef b) \<in> set d \<longrightarrow> n \<le> b)"

text \<open>An attribute that is read into a payload as it is, without a copy, holds no
  reference to a collection: the data model has a string or a number there.\<close>

definition plain :: "pyval \<Rightarrow> string \<Rightarrow> bool" where
  "plain item k = (case getattr item k of Inr (PRef a) \<Rightarrow> False | _ \<Rightarrow> True)"

definition plain_scalars :: "event \<Rightarrow> bool" where
  "plain_scalars ev =
     (case ev of
        Start_suite suite \<Rightarrow> plain suite ''test_count'' \<and> plain suite ''source''
      | End_suite suite \<Rightarrow>
          plain suite ''test_count'' \<and> plain suite ''source'' \<and> plain suite ''stat_message''
      | Start_test test \<Rightarrow> plain test ''template''
      | End_test test \<Rightarrow> plain test ''template''
      | Log_message msg \<Rightarrow>
          plain msg ''timestamp'' \<and> plain msg ''message'' \<and> plain msg ''level''
      | Message msg \<Rightarrow>
          plain msg ''timestamp'' \<and> plain msg ''message'' \<and> plain msg ''level''
      | _ \<Rightarrow> True)"

text \<open>The objects of an event have the attributes its method reads, and the names
  built into method names are names of adapter attributes.\<close>

definition has_attrs :: "pyval \<Rightarrow> string list \<Rightarrow> bool" where
  "has_attrs item ns = list_all (\<lambda>n. \<not> isl (getattr item n)) ns"

definition has_names :: "store \<Rightarrow> pyval \<Rightarrow> string \<Rightarrow> bool" where
  "has_names h item k =
     (case getattr item k of
        Inl e \<Rightarrow> False
      | Inr v \<Rightarrow>
          (case py_iter h v of
             Inl e \<Rightarrow> False
           | Inr ts \<Rightarrow> list_all (\<lambda>t. \<not> isl (getattr t ''name'')) ts))"

definition has_str_type :: "pyval \<Rightarrow> bool" where
  "has_str_type kw = (case getattr kw ''type'' of Inr (PStr ty) \<Rightarrow> True | _ \<Rightarrow> False)"

definition event_ok :: "store \<Rightarrow> event \<Rightarrow> bool" where
  "event_ok h ev =
     (case ev of
        Start_suite suite \<Rightarrow>
          has_attrs suite (''name'' # start_attrs @ [''metadata'', ''test_count'', ''source'']) \<and>
          has_names h suite ''tests'' \<and> has_names h suite ''suites''
      | End_suite suite \<Rightarrow>
          has_attrs suite
            (''name'' # end_attrs @ [''metadata'', ''stat_message'', ''test_count'', ''source'']) \<and>
          has_names h suite ''tests'' \<and> has_names h suite ''suites''
      | Start_test test \<Rightarrow>
          has_attrs test (''name'' # start_attrs @ [''tags'', ''critical'', ''template''])
      | End_test test \<Rightarrow>
          has_attrs test (''name'' # end_attrs @ [''tags'', ''critical'', ''template''])
      | Start_keyword kw \<Rightarrow>
          has_attrs kw (''name'' # get_attr_names start_attrs kw_extra_attrs) \<and> has_str_type kw
      | End_keyword kw \<Rightarrow>
          has_attrs kw (''name'' # get_attr_names end_attrs kw_extra_attrs) \<and> has_str_type kw
      | Imported import_type nm attrs \<Rightarrow> lower import_type @ ''_import'' \<in> set methods
      | Log_message msg \<Rightarrow> has_attrs msg [''timestamp'', ''message'', ''level'', ''html'']
      | Message msg \<Rightarrow> has_attrs msg [''timestamp'', ''message'', ''level'', ''html'']
      | Output_file file_type path \<Rightarrow> lower file_type @ ''_file'' \<in> set methods
      | Close \<Rightarrow> True)"

text \<open>The same registry with a first listener whose \<open>start_test\<close> raises
  \<open>SystemExit\<close>, and what \<open>start_test\<close> of the test leaves behind there.\<close>

definition exit_first :: state where
  "exit_first =
     two_listeners
       \<lparr>listeners := Some [\<lparr>name = ''Exiting'', version = 2, logger = exiting_listener\<rparr>,
                           \<lparr>name = ''Chatty'', version = 2, logger = chatty_listener\<rparr>]\<rparr>"

definition start_payload :: "nat \<Rightarrow> payload" where
  "start_payload tags =
     [(''id'', PStr ''s1-t1''), (''doc'', PStr []),
      (''starttime'', PStr ''20150101 12:00:00.000''), (''longname'', PStr ''S.T1''),
      (''tags'', PRef tags), (''critical'', PStr ''yes''), (''template'', PStr [])]"

definition after_exit :: state where
  "after_exit =
     exit_first
       \<lparr>running_test := True, recursion := True,
        store := [OList [PStr ''smoke''], OList [PStr ''arg''], OList [], OList [PStr ''smoke'']],
        calls := [Call ''Exiting'' ''start_test'' [Val (PStr ''T1''), Attrs (start_payload 3)]]\<rparr>"

text \<open>A keyword of the given name and declared type; its arguments and its assigned
  variables are the lists at the addresses 1 and 2 of the store.\<close>

definition a_keyword :: "string \<Rightarrow> string \<Rightarrow> pyval" where
  "a_keyword nm ty =
     PObj [(''name'', PStr nm), (''type'', PStr ty), (''doc'', PStr []),
           (''starttime'', PStr ''20150101 12:00:00.000''),
           (''endtime'', PStr ''20150101 12:00:01.000''), (''elapsedtime'', PInt 1000),
           (''status'', PStr ''PASS''), (''args'', PRef 1), (''assign'', PRef 2),
           (''kwname'', PStr nm), (''libname'', PStr ''BuiltIn'')]"

text \<open>What the two listeners have received after \<open>end_test\<close> of the test, sent to
  the registry as first notification: one call each, the payload of the adapter with
  its own copy of the tag list.\<close>

definition end_payload :: "nat \<Rightarrow> payload" where
  "end_payload tags =
     [(''id'', PStr ''s1-t1''), (''doc'', PStr []),
      (''starttime'', PStr ''20150101 12:00:00.000''), (''longname'', PStr ''S.T1''),
      (''endtime'', PStr ''20150101 12:00:01.000''), (''elapsedtime'', PInt 1000),
      (''status'', PStr ''PASS''), (''message'', PStr []), (''tags'', PRef tags),
      (''critical'', PStr ''yes''), (''template'', PStr [])]"

definition after_end_test :: state where
  "after_end_test =
     two_listeners
       \<lparr>store := [OList [PStr ''smoke''], OList [PStr ''arg''], OList [],
                  OList [PStr ''smoke''], OList [PStr ''smoke'']],
        calls := [Call ''Raising'' ''<lambda>'' [Val (PStr ''T1''), Attrs (end_payload 3)],
                  Call ''Chatty'' ''<lambda>'' [Val (PStr ''T1''), Attrs (end_payload 4)]]\<rparr>"

text \<open>And after \<open>start_keyword\<close> of a suite setup keyword, sent as first notification:
  each adapter has its own copies of the argument list and of the assignment list.\<close>

definition start_kw_payload :: "nat \<Rightarrow> nat \<Rightarrow> string \<Rightarrow> string \<Rightarrow> payload" where
  "start_kw_payload args assign nm ty =
     [(''doc'', PStr []), (''starttime'', PStr ''20150101 12:00:00.000''),
      (''args'', PRef args), (''assign'', PRef assign), (''kwname'', PStr nm),
      (''libname'', PStr ''BuiltIn''), (''type'', PStr ty)]"

definition after_start_keyword :: state where
  "after_start_keyword =
     two_listeners
       \<lparr>setup_or_teardown_type := Some ''Suite Setup'',
        store := [OList [PStr ''smoke''], OList [PStr ''arg''], OList [],
                  OList [PStr ''arg''], OList [], OList [PStr ''arg''], OList []],
        calls := [Call ''Raising'' ''<lambda>''
                    [Val (PStr ''Open''), Attrs (start_kw_payload 3 4 ''Open'' ''Suite Setup'')],
                  Call ''Chatty'' ''<lambda>''
                    [Val (PStr ''Open''), Attrs (start_kw_payload 5 6 ''Open'' ''Suite Setup'')]]\<rparr>"

text \<open>The registry when a library is imported: the store holds the attribute
  mapping the caller passes, at address 0, and the argument list that mapping refers
  to, at address 1.\<close>

definition at_import :: state where
  "at_import =
     two_listeners
       \<lparr>store := [ODict [(''args'', PRef 1), (''source'', PStr ''BuiltIn.py'')],
                  OList [PStr ''arg'']]\<rparr>"

text \<open>The keyword type a notification reports and the pending type it leaves, for
  a keyword of declared type \<open>ty\<close>, as functions of \<open>running_test\<close> and of the
  pending type before; and the \<open>type\<close> entry of the payload of a call.\<close>

definition scope_label :: "bool \<Rightarrow> string \<Rightarrow> string" where
  "scope_label rt ty = (if rt then ''Test'' else ''Suite'') @ '' '' @ title ty"

definition reported_type :: "string \<Rightarrow> bool \<Rightarrow> string option \<Rightarrow> string" where
  "reported_type ty rt pending =
     (if ty = ''kw''
      then (case pending of None \<Rightarrow> ''Keyword'' | Some t \<Rightarrow> (if t = [] then ''Keyword'' else t))
      else scope_label rt ty)"

definition next_pending :: "string \<Rightarrow> bool \<Rightarrow> bool \<Rightarrow> string option \<Rightarrow> string option" where
  "next_pending ty start rt pending =
     (if ty = ''kw'' then pending else if start then Some (scope_label rt ty) else None)"

definition payload_type :: "call \<Rightarrow> pyval option" where
  "payload_type c = (case call_args c of [v, Attrs d] \<Rightarrow> map_of d ''type'' | _ \<Rightarrow> None)"

text \<open>A test whose setup keyword runs one nested keyword, followed by a keyword at
  top level: the notifications in the order the registry receives them.\<close>

definition setup_run :: "pyval \<Rightarrow> pyval \<Rightarrow> pyval \<Rightarrow> pyval \<Rightarrow> event list" where
  "setup_run test ksetup knested ktop =
     [Start_test test, Start_keyword ksetup, Start_keyword knested, End_keyword knested,
      End_keyword ksetup, End_test test, Start_keyword ktop]"

section \<open>Adapter construction\<close>

lemma py_int_error_class:
  "py_int v = Inl e \<Longrightarrow> exc_class e = ValueError \<or> exc_class e = TypeError"
  by (auto simp: py_int_def int_of_string_def Let_def split: pyval.splits if_splits)

lemma get_version_cases:
  "get_version nm l =
     (case api_version l of
        None \<Rightarrow> Inl (Exc DataError (missing_version_message nm) [])
      | Some v \<Rightarrow>
          (if py_int v = Inr 2 then Inr 2
           else Inl (Exc DataError (unsupported_version_message nm v) [])))"
  using py_int_error_class
  by (fastforce simp: get_version_def read_version_def attribute_error_def
      split: option.splits sum.splits)

lemma ListenerProxy_error_class:
  "ListenerProxy ev sp = Inl e \<Longrightarrow> exc_class e = DataError"
  by (auto simp: ListenerProxy_def import_listener_def get_version_cases
      split: spec.splits sum.splits prod.splits option.splits if_splits)

lemma import_listeners_eq:
  "import_listeners ev sps lg =
     (Inr (map (\<lambda>sp. projr (ListenerProxy ev sp)) (filter (\<lambda>sp. \<not> isl (ListenerProxy ev sp)) sps)),
      lg @ map (\<lambda>sp. (ERROR, taking_into_use_failed sp (exc_message (projl (ListenerProxy ev sp)))))
             (filter (\<lambda>sp. isl (ListenerProxy ev sp)) sps))"
proof (induction sps arbitrary: lg)
  case Nil
  show ?case by simp
next
  case (Cons sp sps)
  show ?case
  proof (cases "ListenerProxy ev sp")
    case (Inl e)
    then have "exc_class e = DataError" by (rule ListenerProxy_error_class)
    with Inl Cons show ?thesis
      by (simp add: LOGGER_error_def)
  next
    case (Inr p)
    with Cons show ?thesis by simp
  qed
qed

section \<open>The guard\<close>

lemma notify_flag_set: "recursion s \<Longrightarrow> notify n ev s = Some (Inr (), s)"
  by (cases n) (simp_all add: avoid_recursion_def)

lemma guarded_notify: "guarded (notify n)"
  by (simp add: guarded_def notify_flag_set)

lemma reenter_guarded:
  "guarded reg \<Longrightarrow> recursion s \<Longrightarrow> reenter reg evs s = Some (Inr (), s)"
  by (induction evs) (simp_all add: guarded_def)

lemma call_method_guarded:
  assumes "guarded reg" "recursion s"
  shows "call_method reg p m args s =
           Some (outcome m, s\<lparr>calls := calls s @ [Call (name p) (meth_name m) args],
                            log := log s @ failure_log p m\<rparr>)"
  using assms
  by (simp add: call_method_def invoke_def reenter_guarded failure_log_def outcome_def
      get_error_details_def LOGGER_error_def LOGGER_info_def split: option.splits)

lemma notify_all_flag_set: "recursion s \<Longrightarrow> notify_all n evs s = Some (Inr (), s)"
  by (induction evs) (simp_all add: notify_flag_set)

section \<open>The store only grows\<close>

lemma extends_refl [simp]: "extends h h"
  by (simp add: extends_def)

lemma extends_append [simp]: "extends h (h @ ext)"
  by (auto simp: extends_def)

lemma extends_trans: "extends h h1 \<Longrightarrow> extends h1 h2 \<Longrightarrow> extends h h2"
  by (auto simp: extends_def)

lemma extends_length: "extends h h' \<Longrightarrow> length h \<le> length h'"
  by (auto simp: extends_def)

lemma extends_nth: "extends h h' \<Longrightarrow> a < length h \<Longrightarrow> h' ! a = h ! a"
  by (auto simp: extends_def nth_append)

lemma sframeD: "sframe f \<Longrightarrow> f h = (r, h') \<Longrightarrow> extends h h'"
proof -
  assume "sframe f" and fh: "f h = (r, h')"
  then have "extends h (snd (f h))" unfolding sframe_def by blast
  with fh show ?thesis by simp
qed

lemma sframe_spure [simp]: "sframe (spure r)"
  by (simp add: sframe_def spure_def)

lemma sframe_const [simp]: "sframe (\<lambda>h. (r h, h))"
  by (simp add: sframe_def)

lemma sframe_alloc [simp]: "sframe (alloc ob)"
  by (simp add: sframe_def alloc_def)

lemma sframe_sbind: "sframe m \<Longrightarrow> (\<And>x. sframe (f x)) \<Longrightarrow> sframe (sbind m f)"
  unfolding sframe_def sbind_def
proof (intro allI)
  fix h
  assume m: "\<forall>h. extends h (snd (m h))" and f: "\<And>x. \<forall>h. extends h (snd (f x h))"
  obtain r h1 where mh: "m h = (r, h1)" by (cases "m h")
  from m have e1: "extends h h1" using mh by (metis snd_conv)
  show "extends h (snd (case m h of (Inl e, h') \<Rightarrow> (Inl e, h') | (Inr x, h') \<Rightarrow> f x h'))"
  proof (cases r)
    case (Inl e)
    with mh e1 show ?thesis by simp
  next
    case (Inr x)
    from f [of x] have "extends h1 (snd (f x h1))" by simp
    with e1 mh Inr show ?thesis by (auto intro: extends_trans)
  qed
qed

lemma sframe_py_dict [simp]: "sframe (py_dict v)"
  by (auto simp: sframe_def py_dict_def alloc_def split: pyval.splits pyobj.splits)

lemma sframe_py_list [simp]: "sframe (py_list v)"
  by (auto simp: sframe_def py_list_def alloc_def split: sum.splits)

lemma sframe_take_copy [simp]: "sframe (take_copy_of_mutable_value v)"
proof -
  have "extends h (snd (take_copy_of_mutable_value v h))" for h
    using sframe_py_dict [of v] sframe_py_list [of v]
    by (simp add: take_copy_of_mutable_value_def sframe_def)
  then show ?thesis by (simp add: sframe_def)
qed

lemma sframe_get_attr_value [simp]: "sframe (get_attr_value item n)"
  by (simp add: get_attr_value_def sframe_sbind)

lemma sframe_attr_items [simp]: "sframe (attr_items item ns)"
proof (induction ns)
  case Nil
  show ?case by (simp add: sframe_def)
next
  case (Cons n ns)
  have "attr_items item (n # ns) =
          sbind (get_attr_value item n)
            (\<lambda>v. sbind (attr_items item ns) (\<lambda>kvs. spure (Inr ((n, v) # kvs))))"
    by (rule ext) simp
  with Cons show ?case by (simp add: sframe_sbind)
qed

lemma sframe_get_attrs [simp]: "sframe (get_attrs item dflt extra)"
  by (simp add: get_attrs_def sframe_sbind)

lemma sframe_name_list [simp]: "sframe (name_list item n)"
  by (auto simp: sframe_def name_list_def alloc_def split: sum.splits)

lemma sframe_get_suite_attrs [simp]: "sframe (get_suite_attrs suite)"
  by (simp add: get_suite_attrs_def sframe_sbind)

lemma sframe_create_msg_dict [simp]: "sframe (create_msg_dict msg)"
  by (simp add: create_msg_dict_def sframe_sbind)

lemma sframe_critical_and_template [simp]: "sframe (critical_and_template test attrs)"
  by (simp add: critical_and_template_def sframe_sbind)

lemma sframe_start_suite_attrs [simp]: "sframe (start_suite_attrs suite)"
  by (simp add: start_suite_attrs_def get_start_attrs_def sframe_sbind)

lemma sframe_end_suite_attrs [simp]: "sframe (end_suite_attrs suite)"
  by (simp add: end_suite_attrs_def get_end_attrs_def sframe_sbind)

lemma sframe_start_test_attrs [simp]: "sframe (start_test_attrs test)"
  by (simp add: start_test_attrs_def get_start_attrs_def sframe_sbind)

lemma sframe_end_test_attrs [simp]: "sframe (end_test_attrs test)"
  by (simp add: end_test_attrs_def get_end_attrs_def sframe_sbind)

section \<open>Argument evaluation and the loop over the adapters\<close>

lemma frameD:
  assumes "frame m" "m s = (r, s')"
  shows "recursion s' = recursion s" "calls s' = calls s" "log s' = log s"
    "listeners s' = listeners s" "running_test s' = running_test s"
    "extends (store s) (store s')"
proof -
  from assms(1) have "recursion (snd (m s)) = recursion s \<and> calls (snd (m s)) = calls s \<and>
          log (snd (m s)) = log s \<and> listeners (snd (m s)) = listeners s \<and>
          running_test (snd (m s)) = running_test s \<and>
          extends (store s) (store (snd (m s)))"
    unfolding frame_def by blast
  with assms(2) show "recursion s' = recursion s" "calls s' = calls s" "log s' = log s"
    "listeners s' = listeners s" "running_test s' = running_test s"
    "extends (store s) (store s')"
    by simp_all
qed

lemma frame_tpure [simp]: "frame (tpure r)"
  by (simp add: frame_def tpure_def)

lemma frame_in_store [simp]: "sframe f \<Longrightarrow> frame (in_store f)"
  by (auto simp: frame_def in_store_def split: prod.splits dest: sframeD)

lemma frame_tbind: "frame m \<Longrightarrow> (\<And>x. frame (f x)) \<Longrightarrow> frame (tbind m f)"
  unfolding frame_def tbind_def
proof (intro allI)
  fix s
  assume m: "\<forall>s. recursion (snd (m s)) = recursion s \<and> calls (snd (m s)) = calls s \<and>
          log (snd (m s)) = log s \<and> listeners (snd (m s)) = listeners s \<and>
          running_test (snd (m s)) = running_test s \<and> extends (store s) (store (snd (m s)))"
    and f: "\<And>x. \<forall>s. recursion (snd (f x s)) = recursion s \<and> calls (snd (f x s)) = calls s \<and>
          log (snd (f x s)) = log s \<and> listeners (snd (f x s)) = listeners s \<and>
          running_test (snd (f x s)) = running_test s \<and> extends (store s) (store (snd (f x s)))"
  let ?t = "case m s of (Inl e, s') \<Rightarrow> (Inl e, s') | (Inr x, s') \<Rightarrow> f x s'"
  obtain r s1 where ms: "m s = (r, s1)" by (cases "m s")
  from m have m1: "recursion s1 = recursion s \<and> calls s1 = calls s \<and> log s1 = log s \<and>
      listeners s1 = listeners s \<and> running_test s1 = running_test s \<and>
      extends (store s) (store s1)"
    using ms by (metis snd_conv)
  show "recursion (snd ?t) = recursion s \<and> calls (snd ?t) = calls s \<and>
          log (snd ?t) = log s \<and> listeners (snd ?t) = listeners s \<and>
          running_test (snd ?t) = running_test s \<and> extends (store s) (store (snd ?t))"
  proof (cases r)
    case (Inl e)
    with ms m1 show ?thesis by simp
  next
    case (Inr x)
    with ms have t: "?t = f x s1" by simp
    from f [of x] have "recursion (snd (f x s1)) = recursion s1 \<and> calls (snd (f x s1)) = calls s1 \<and>
          log (snd (f x s1)) = log s1 \<and> listeners (snd (f x s1)) = listeners s1 \<and>
          running_test (snd (f x s1)) = running_test s1 \<and>
          extends (store s1) (store (snd (f x s1)))"
      by blast
    with m1 t show ?thesis by (auto intro: extends_trans)
  qed
qed

lemma frame_get_keyword_type [simp]: "frame (get_keyword_type kw start)"
  by (auto simp: frame_def get_keyword_type_def split: sum.splits)

lemma frame_keyword_attrs [simp]: "frame (keyword_attrs dflt kw start)"
  by (simp add: keyword_attrs_def frame_tbind)

lemma frame_msg_call [simp]: "frame (msg_call listener mname msg)"
  by (simp add: msg_call_def frame_tbind)

lemma call_with_guarded:
  assumes "guarded reg" "frame prep" "recursion s"
  shows "call_with reg p prep s =
           (case prep s of
              (Inl x, s1) \<Rightarrow> Some (Inl x, s1)
            | (Inr (m, args), s1) \<Rightarrow>
                Some (outcome m, s1\<lparr>calls := calls s1 @ [Call (name p) (meth_name m) args],
                                  log := log s1 @ failure_log p m\<rparr>))"
proof -
  obtain r s1 where ps: "prep s = (r, s1)" by (cases "prep s")
  with assms have "recursion s1" by (simp add: frameD(1))
  with assms(1) ps show ?thesis
    by (simp add: call_with_def call_method_guarded split: sum.splits prod.splits)
qed

lemma for_listeners_invariant:
  assumes "\<And>p s. p \<in> set ps \<Longrightarrow> I s \<Longrightarrow> \<exists>r s'. f p s = Some (r, s') \<and> I s'"
  shows "I s \<Longrightarrow> \<exists>r s'. for_listeners f ps s = Some (r, s') \<and> I s'"
  using assms
proof (induction ps arbitrary: s)
  case Nil
  then show ?case by simp
next
  case (Cons p ps)
  from Cons.prems obtain r s1 where st: "f p s = Some (r, s1)" "I s1"
    by (meson list.set_intros(1))
  show ?case
  proof (cases r)
    case (Inl x)
    with st show ?thesis by simp
  next
    case (Inr u)
    have "\<exists>r s'. for_listeners f ps s1 = Some (r, s') \<and> I s'"
      using st(2) Cons.prems(2) by (intro Cons.IH) auto
    with st Inr show ?thesis by simp
  qed
qed

text \<open>One step of a loop: the calls it adds satisfy \<open>Q\<close>, and it keeps the flag set.\<close>

lemma call_with_step:
  assumes g: "guarded reg" and fr: "frame prep"
    and q: "\<And>s m args s1. prep s = (Inr (m, args), s1) \<Longrightarrow> J s \<Longrightarrow>
              Q (Call (name p) (meth_name m) args) \<and> J s1"
    and jfail: "\<And>s x s1. prep s = (Inl x, s1) \<Longrightarrow> J s \<Longrightarrow> J s1"
    and jcall: "\<And>s c l. J s \<Longrightarrow> J (s\<lparr>calls := c, log := l\<rparr>)"
    and pre: "recursion s" "J s" "\<exists>cs. calls s = base @ cs \<and> (\<forall>c\<in>set cs. Q c)"
  shows "\<exists>r s'. call_with reg p prep s = Some (r, s') \<and> recursion s' \<and> J s' \<and>
           (\<exists>cs. calls s' = base @ cs \<and> (\<forall>c\<in>set cs. Q c))"
proof -
  obtain r s1 where ps: "prep s = (r, s1)" by (cases "prep s")
  have f1: "recursion s1" "calls s1 = calls s"
    using frameD(1,2) [OF fr ps] pre(1) by simp_all
  from pre(3) obtain cs where cs: "calls s = base @ cs" "\<forall>c\<in>set cs. Q c" by blast
  show ?thesis
  proof (cases r)
    case (Inl x)
    with ps have "call_with reg p prep s = Some (Inl x, s1)"
      by (simp add: call_with_guarded [OF g fr pre(1)])
    moreover have "J s1" using jfail ps Inl pre(2) by blast
    moreover have "\<exists>cs. calls s1 = base @ cs \<and> (\<forall>c\<in>set cs. Q c)"
      using f1 cs by simp
    ultimately show ?thesis using f1(1) by blast
  next
    case (Inr ma)
    obtain m args where ma: "ma = (m, args)" by (cases ma)
    let ?c = "Call (name p) (meth_name m) args"
    let ?s = "s1\<lparr>calls := calls s1 @ [?c], log := log s1 @ failure_log p m\<rparr>"
    have cw: "call_with reg p prep s = Some (outcome m, ?s)"
      using ps Inr ma by (simp add: call_with_guarded [OF g fr pre(1)])
    have qj: "Q ?c \<and> J s1" using q ps Inr ma pre(2) by blast
    then have j: "J ?s" using jcall by blast
    have c1: "calls ?s = base @ (cs @ [?c])" using f1 cs by simp
    have c2: "\<forall>c\<in>set (cs @ [?c]). Q c" using cs qj by simp
    have c3: "\<exists>cs. calls ?s = base @ cs \<and> (\<forall>c\<in>set cs. Q c)"
      using c1 c2 by blast
    have r: "recursion ?s" using f1(1) by simp
    show ?thesis using cw r j c3 by blast
  qed
qed

lemma unwrapped_shape:
  "unwrapped reg ev s =
     each_listener (\<lambda>p. call_with reg p (prep_of ev p)) (before_loop ev s)"
  by (cases ev)
    (simp_all add: prep_of_def before_loop_def start_suite_def end_suite_def
      notify_end_suite_def start_test_def end_test_def notify_end_test_def
      start_keyword_def end_keyword_def imported_def log_message_def message_def
      output_file_def close_def method_ref_def)

lemma frame_prep_of [simp]: "frame (prep_of ev p)"
  by (cases ev) (simp_all add: prep_of_def frame_tbind)

lemma before_loop_fields [simp]:
  "recursion (before_loop ev s) = recursion s"
  "calls (before_loop ev s) = calls s"
  "log (before_loop ev s) = log s"
  "listeners (before_loop ev s) = listeners s"
  "store (before_loop ev s) = store s"
  "setup_or_teardown_type (before_loop ev s) = setup_or_teardown_type s"
  by (simp_all add: before_loop_def split: event.splits)

text \<open>What the body of any public method does while the flag is set: it returns, the
  flag is still set, and every call it has added to the trace satisfies \<open>Q\<close>, when
  argument evaluation establishes \<open>Q\<close> of its call and maintains \<open>J\<close>.\<close>

lemma unwrapped_calls:
  assumes g: "guarded reg"
    and q: "\<And>p s m args s1. prep_of ev p s = (Inr (m, args), s1) \<Longrightarrow> J s \<Longrightarrow>
              Q (Call (name p) (meth_name m) args) \<and> J s1"
    and jfail: "\<And>p s x s1. prep_of ev p s = (Inl x, s1) \<Longrightarrow> J s \<Longrightarrow> J s1"
    and jcall: "\<And>s c l. J s \<Longrightarrow> J (s\<lparr>calls := c, log := l\<rparr>)"
    and pre: "recursion s" "J (before_loop ev s)"
  shows "\<exists>r s'. unwrapped reg ev s = Some (r, s') \<and> recursion s' \<and> J s' \<and>
           (\<exists>cs. calls s' = calls s @ cs \<and> (\<forall>c\<in>set cs. Q c))"
proof (cases "listeners s")
  case None
  then have "unwrapped reg ev s = Some (Inl (attribute_error ''_listeners''), before_loop ev s)"
    by (simp add: unwrapped_shape each_listener_def)
  with pre show ?thesis by simp
next
  case (Some ps)
  let ?I = "\<lambda>t. recursion t \<and> J t \<and> (\<exists>cs. calls t = calls s @ cs \<and> (\<forall>c\<in>set cs. Q c))"
  have step: "\<exists>r s'. call_with reg p (prep_of ev p) t = Some (r, s') \<and> ?I s'"
    if "?I t" for p t
  proof -
    from that have a: "recursion t" and b: "J t"
      and c: "\<exists>cs. calls t = calls s @ cs \<and> (\<forall>c\<in>set cs. Q c)" by blast+
    show ?thesis
      by (rule call_with_step [where J = J and Q = Q, OF g frame_prep_of q jfail jcall a b c])
  qed
  have "?I (before_loop ev s)" using pre by simp
  then have "\<exists>r s'. for_listeners (\<lambda>p. call_with reg p (prep_of ev p)) ps (before_loop ev s)
                      = Some (r, s') \<and> ?I s'"
    by (rule for_listeners_invariant [where I = ?I, rotated]) (rule step)
  with Some show ?thesis by (simp add: unwrapped_shape each_listener_def)
qed

lemma unwrapped_returns:
  assumes "guarded reg" "recursion s"
  shows "\<exists>r s'. unwrapped reg ev s = Some (r, s') \<and> recursion s'"
proof -
  have "\<exists>r s'. unwrapped reg ev s = Some (r, s') \<and> recursion s' \<and> True \<and>
           (\<exists>cs. calls s' = calls s @ cs \<and> (\<forall>c\<in>set cs. True))"
    by (rule unwrapped_calls [where J = "\<lambda>s. True" and Q = "\<lambda>c. True", OF assms(1)])
      (simp_all add: assms(2))
  then show ?thesis by blast
qed

text \<open>A top-level notification: the body runs with the flag set, the flag is cleared
  when the body returns and stays set when an exception leaves it.\<close>

lemma notify_top:
  assumes "\<not> recursion s"
  shows "\<exists>r s1. unwrapped (notify n) ev (s\<lparr>recursion := True\<rparr>) = Some (r, s1) \<and> recursion s1 \<and>
           notify (Suc n) ev s = Some (r, if isl r then s1 else s1\<lparr>recursion := False\<rparr>)"
proof -
  obtain r s1 where u: "unwrapped (notify n) ev (s\<lparr>recursion := True\<rparr>) = Some (r, s1)"
    and f: "recursion s1"
    using unwrapped_returns [OF guarded_notify, of "s\<lparr>recursion := True\<rparr>" n ev] by auto
  have "notify (Suc n) ev s = Some (r, if isl r then s1 else s1\<lparr>recursion := False\<rparr>)"
    using assms u by (cases r) (simp_all add: avoid_recursion_def)
  with u f show ?thesis by blast
qed

lemma notify_returns: "\<exists>r s'. notify (Suc n) ev s = Some (r, s')"
proof (cases "recursion s")
  case True
  then show ?thesis using notify_flag_set [of s "Suc n" ev] by blast
next
  case False
  from notify_top [OF this] show ?thesis by blast
qed

text \<open>Each adapter the loop reaches is called once, in registration order, whatever
  the routines call back.\<close>

lemma for_listeners_once:
  assumes g: "guarded reg" and fr: "\<And>p. frame (prep p)"
  shows "recursion s \<Longrightarrow>
         \<exists>r s' cs. for_listeners (\<lambda>p. call_with reg p (prep p)) ps s = Some (r, s') \<and>
           recursion s' \<and> calls s' = calls s @ cs \<and>
           map receiver cs = map name (take (length cs) ps) \<and>
           (r = Inr () \<longrightarrow> length cs = length ps)"
proof (induction ps arbitrary: s)
  case Nil
  then show ?case by simp
next
  case (Cons p ps)
  obtain r s1 where ps1: "prep p s = (r, s1)" by (cases "prep p s")
  have f1: "recursion s1" "calls s1 = calls s"
    using frameD(1,2) [OF fr ps1] Cons.prems by simp_all
  show ?case
  proof (cases r)
    case (Inl x)
    with ps1 have "call_with reg p (prep p) s = Some (Inl x, s1)"
      by (simp add: call_with_guarded [OF g fr Cons.prems])
    then have "for_listeners (\<lambda>p. call_with reg p (prep p)) (p # ps) s = Some (Inl x, s1)"
      by simp
    moreover have "calls s1 = calls s @ [] \<and> map receiver [] = map name (take (length []) (p # ps))"
      using f1 by simp
    moreover have "Inl x = Inr () \<longrightarrow> length [] = length (p # ps)" by simp
    ultimately show ?thesis using f1(1) by blast
  next
    case (Inr ma)
    obtain m args where ma: "ma = (m, args)" by (cases ma)
    let ?c = "Call (name p) (meth_name m) args"
    let ?s = "s1\<lparr>calls := calls s1 @ [?c], log := log s1 @ failure_log p m\<rparr>"
    have cw: "call_with reg p (prep p) s = Some (outcome m, ?s)"
      using ps1 Inr ma by (simp add: call_with_guarded [OF g fr Cons.prems])
    have rs: "recursion ?s" using f1 by simp
    show ?thesis
    proof (cases "outcome m")
      case (Inl x)
      with cw have a: "for_listeners (\<lambda>p. call_with reg p (prep p)) (p # ps) s = Some (Inl x, ?s)"
        by simp
      have b: "calls ?s = calls s @ [?c]" using f1 by simp
      have c: "map receiver [?c] = map name (take (length [?c]) (p # ps))" by simp
      have d: "Inl x = Inr () \<longrightarrow> length [?c] = length (p # ps)" by simp
      show ?thesis using a rs b c d by blast
    next
      case (Inr u)
      from Cons.IH [OF rs] obtain r' s' cs where
        rest: "for_listeners (\<lambda>p. call_with reg p (prep p)) ps ?s = Some (r', s')"
        and fl: "recursion s'" and cs: "calls s' = calls ?s @ cs"
        and ord: "map receiver cs = map name (take (length cs) ps)"
        and len: "r' = Inr () \<longrightarrow> length cs = length ps"
        by blast
      have a: "for_listeners (\<lambda>p. call_with reg p (prep p)) (p # ps) s = Some (r', s')"
        using cw rest Inr by simp
      have b: "calls s' = calls s @ (?c # cs)" using cs f1 by simp
      have c: "map receiver (?c # cs) = map name (take (length (?c # cs)) (p # ps))"
        using ord by simp
      have d: "r' = Inr () \<longrightarrow> length (?c # cs) = length (p # ps)" using len by simp
      show ?thesis using a fl b c d by blast
    qed
  qed
qed

lemma unwrapped_once:
  assumes "guarded reg" "recursion s" "listeners s = Some ps"
  shows "\<exists>r s' cs. unwrapped reg ev s = Some (r, s') \<and> recursion s' \<and>
           calls s' = calls s @ cs \<and> map receiver cs = map name (take (length cs) ps) \<and>
           (r = Inr () \<longrightarrow> length cs = length ps)"
proof -
  have "recursion (before_loop ev s)" using assms(2) by simp
  from for_listeners_once [where prep = "prep_of ev", OF assms(1) frame_prep_of this, of ps]
  show ?thesis using assms(3) by (simp add: unwrapped_shape each_listener_def)
qed

lemma notify_top_once:
  assumes "\<not> recursion s" "listeners s = Some ps"
  shows "\<exists>r s' cs. notify (Suc n) ev s = Some (r, s') \<and> recursion s' = isl r \<and>
           calls s' = calls s @ cs \<and> map receiver cs = map name (take (length cs) ps) \<and>
           (r = Inr () \<longrightarrow> length cs = length ps)"
proof -
  from notify_top [OF assms(1), of n ev] obtain r s1 where
    u: "unwrapped (notify n) ev (s\<lparr>recursion := True\<rparr>) = Some (r, s1)" and f: "recursion s1"
    and nt: "notify (Suc n) ev s = Some (r, if isl r then s1 else s1\<lparr>recursion := False\<rparr>)"
    by blast
  have "listeners (s\<lparr>recursion := True\<rparr>) = Some ps" "recursion (s\<lparr>recursion := True\<rparr>)"
    using assms(2) by simp_all
  from unwrapped_once [OF guarded_notify this(2) this(1), of n ev] u
  obtain cs where cs: "calls s1 = calls s @ cs"
    "map receiver cs = map name (take (length cs) ps)"
    "r = Inr () \<longrightarrow> length cs = length ps"
    by auto
  let ?s' = "if isl r then s1 else s1\<lparr>recursion := False\<rparr>"
  have "recursion ?s' = isl r" using f by simp
  moreover have "calls ?s' = calls s @ cs" using cs(1) by simp
  ultimately show ?thesis using nt cs(2,3) by blast
qed

section \<open>Payloads: keys and entries\<close>

lemma sbind_Inr_iff:
  "sbind m f h = (Inr y, h') \<longleftrightarrow> (\<exists>x h1. m h = (Inr x, h1) \<and> f x h1 = (Inr y, h'))"
  by (auto simp: sbind_def split: prod.splits sum.splits)

lemma sbind_ok: "m h = (Inr x, h1) \<Longrightarrow> sbind m f h = f x h1"
  by (simp add: sbind_def)

lemma spure_iff [simp]: "spure r h = (r', h') \<longleftrightarrow> r = r' \<and> h = h'"
  by (auto simp: spure_def)

lemma tbind_Inr_iff:
  "tbind m f s = (Inr y, s') \<longleftrightarrow> (\<exists>x s1. m s = (Inr x, s1) \<and> f x s1 = (Inr y, s'))"
  by (auto simp: tbind_def split: prod.splits sum.splits)

lemma tbind_ok: "m s = (Inr x, s1) \<Longrightarrow> tbind m f s = f x s1"
  by (simp add: tbind_def)

lemma tpure_iff [simp]: "tpure r s = (r', s') \<longleftrightarrow> r = r' \<and> s = s'"
  by (auto simp: tpure_def)

lemma in_store_iff:
  "in_store f s = (r, s') \<longleftrightarrow> (\<exists>h'. f (store s) = (r, h') \<and> s' = s\<lparr>store := h'\<rparr>)"
  by (auto simp: in_store_def split: prod.splits)



lemma map_fst_dict_set:
  "map fst (dict_set k v d) = (if k \<in> set (map fst d) then map fst d else map fst d @ [k])"
  by (induction k v d rule: dict_set.induct) auto

lemma keys_dict_set [simp]: "fst ` set (dict_set k v d) = insert k (fst ` set d)"
proof -
  have "set (map fst (dict_set k v d)) = insert k (set (map fst d))"
    by (auto simp: map_fst_dict_set)
  then show ?thesis by simp
qed

lemma keys_dict_update [simp]: "fst ` set (dict_update d e) = fst ` set d \<union> fst ` set e"
  by (induction d e rule: dict_update.induct) auto

lemma keys_dict_of_pairs [simp]: "fst ` set (dict_of_pairs kvs) = fst ` set kvs"
  by (simp add: dict_of_pairs_def)

lemma set_dict_set: "set (dict_set k v d) \<subseteq> insert (k, v) (set d)"
  by (induction k v d rule: dict_set.induct) auto

lemma set_dict_update: "set (dict_update d e) \<subseteq> set d \<union> set e"
proof (induction d e rule: dict_update.induct)
  case (1 d)
  show ?case by simp
next
  case (2 d k v e)
  then show ?case using set_dict_set [of k v d] by auto
qed

lemma map_of_dict_set [simp]: "map_of (dict_set k v d) = (map_of d)(k \<mapsto> v)"
  by (induction k v d rule: dict_set.induct) (auto simp: fun_eq_iff)

lemma attr_items_keys:
  "attr_items item ns h = (Inr kvs, h') \<Longrightarrow> map fst kvs = ns"
proof (induction ns arbitrary: h kvs)
  case Nil
  then show ?case by simp
next
  case (Cons n ns)
  then show ?case by (auto simp: sbind_Inr_iff)
qed

lemma get_attrs_keys:
  "get_attrs item dflt extra h = (Inr d, h') \<Longrightarrow> fst ` set d = set (get_attr_names dflt extra)"
proof -
  assume "get_attrs item dflt extra h = (Inr d, h')"
  then obtain kvs where a: "attr_items item (get_attr_names dflt extra) h = (Inr kvs, h')"
    and d: "d = dict_of_pairs kvs"
    by (auto simp: get_attrs_def sbind_Inr_iff)
  from attr_items_keys [OF a] have "set (map fst kvs) = set (get_attr_names dflt extra)"
    by simp
  with d show ?thesis by simp
qed


lemma fresh_from_mono: "fresh_from n d \<Longrightarrow> m \<le> n \<Longrightarrow> fresh_from m d"
  by (auto simp: fresh_from_def intro: order_trans)

lemma fresh_from_Nil [simp]: "fresh_from n []"
  by (simp add: fresh_from_def)

lemma fresh_from_Cons:
  "fresh_from n ((k, v) # d) \<longleftrightarrow> (\<forall>b. v = PRef b \<longrightarrow> n \<le> b) \<and> fresh_from n d"
  by (auto simp: fresh_from_def)

lemma fresh_from_dict_set:
  "fresh_from n d \<Longrightarrow> (\<And>b. v = PRef b \<Longrightarrow> n \<le> b) \<Longrightarrow> fresh_from n (dict_set k v d)"
  using set_dict_set [of k v d] by (auto simp: fresh_from_def)

lemma fresh_from_dict_update:
  "fresh_from n d \<Longrightarrow> fresh_from n e \<Longrightarrow> fresh_from n (dict_update d e)"
  using set_dict_update [of d e] by (auto simp: fresh_from_def)

lemma take_copy_fresh:
  assumes "take_copy_of_mutable_value v h = (Inr (PRef b), h')"
  shows "length h \<le> b"
proof (cases "is_list_like h v")
  case False
  then have "\<not> is_dict_like h v"
    by (auto simp: is_dict_like_def is_list_like_def split: pyval.splits)
  with False assms have "v = PRef b"
    by (simp add: take_copy_of_mutable_value_def)
  with False show ?thesis by (simp add: is_list_like_def)
next
  case True
  then obtain a where v: "v = PRef a" "a < length h"
    by (auto simp: is_list_like_def split: pyval.splits)
  with assms show ?thesis
    by (cases "h ! a")
      (auto simp: take_copy_of_mutable_value_def is_dict_like_def is_list_like_def
        py_dict_def py_list_def py_iter_def alloc_def)
qed

lemma take_copy_total:
  "\<exists>v' h'. take_copy_of_mutable_value v h = (Inr v', h')"
proof (cases "is_list_like h v")
  case False
  then have "\<not> is_dict_like h v"
    by (auto simp: is_dict_like_def is_list_like_def split: pyval.splits)
  with False show ?thesis by (simp add: take_copy_of_mutable_value_def)
next
  case True
  then obtain a where v: "v = PRef a" "a < length h"
    by (auto simp: is_list_like_def split: pyval.splits)
  then show ?thesis
    by (cases "h ! a")
      (auto simp: take_copy_of_mutable_value_def is_dict_like_def is_list_like_def
        py_dict_def py_list_def py_iter_def alloc_def)
qed

lemma get_attr_value_iff:
  "get_attr_value item n h = (Inr v, h') \<longleftrightarrow>
     (\<exists>u. getattr item n = Inr u \<and> take_copy_of_mutable_value u h = (Inr v, h'))"
  by (auto simp: get_attr_value_def sbind_Inr_iff)

lemma attr_items_fresh:
  "attr_items item ns h = (Inr kvs, h') \<Longrightarrow> fresh_from (length h) kvs"
proof (induction ns arbitrary: h kvs)
  case Nil
  then show ?case by simp
next
  case (Cons n ns)
  from Cons.prems obtain v h1 kvs' where
    a: "get_attr_value item n h = (Inr v, h1)"
    and b: "attr_items item ns h1 = (Inr kvs', h')" and c: "kvs = (n, v) # kvs'"
    by (auto simp: sbind_Inr_iff)
  from a have e: "extends h h1" by (rule sframeD [OF sframe_get_attr_value])
  from a have "\<And>b. v = PRef b \<Longrightarrow> length h \<le> b"
    by (auto simp: get_attr_value_iff dest: take_copy_fresh)
  moreover have "fresh_from (length h) kvs'"
    using Cons.IH [OF b] extends_length [OF e] by (rule fresh_from_mono)
  ultimately show ?case using c by (simp add: fresh_from_Cons)
qed

lemma fresh_from_dict_of_pairs: "fresh_from n kvs \<Longrightarrow> fresh_from n (dict_of_pairs kvs)"
  by (simp add: dict_of_pairs_def fresh_from_dict_update)

lemma get_attrs_fresh:
  "get_attrs item dflt extra h = (Inr d, h') \<Longrightarrow> fresh_from (length h) d"
  by (auto simp: get_attrs_def sbind_Inr_iff dest: attr_items_fresh intro: fresh_from_dict_of_pairs)

lemma attr_items_total:
  "has_attrs item ns \<Longrightarrow> \<exists>kvs h'. attr_items item ns h = (Inr kvs, h')"
proof (induction ns arbitrary: h)
  case Nil
  show ?case by simp
next
  case (Cons n ns)
  from Cons.prems obtain u where u: "getattr item n = Inr u" and r: "has_attrs item ns"
    by (cases "getattr item n") (auto simp: has_attrs_def)
  obtain v h1 where c: "take_copy_of_mutable_value u h = (Inr v, h1)"
    using take_copy_total by blast
  with u have a: "get_attr_value item n h = (Inr v, h1)" by (auto simp: get_attr_value_iff)
  from Cons.IH [OF r, of h1] obtain kvs h' where b: "attr_items item ns h1 = (Inr kvs, h')"
    by blast
  from a b have "attr_items item (n # ns) h = (Inr ((n, v) # kvs), h')"
    by (simp add: sbind_ok)
  then show ?case by blast
qed

lemma get_attrs_total:
  "has_attrs item (get_attr_names dflt extra) \<Longrightarrow> \<exists>d h'. get_attrs item dflt extra h = (Inr d, h')"
proof -
  assume "has_attrs item (get_attr_names dflt extra)"
  from attr_items_total [OF this, of h] obtain kvs h' where
    "attr_items item (get_attr_names dflt extra) h = (Inr kvs, h')" by blast
  then have "get_attrs item dflt extra h = (Inr (dict_of_pairs kvs), h')"
    by (simp add: get_attrs_def sbind_ok)
  then show ?thesis by blast
qed


lemma plainD: "plain item k \<Longrightarrow> getattr item k = Inr v \<Longrightarrow> v \<noteq> PRef a"
  by (auto simp: plain_def)

lemma py_or_not_ref: "(\<And>a. v \<noteq> PRef a) \<Longrightarrow> py_or h v (PStr s) \<noteq> PRef b"
  by (simp add: py_or_def)

lemma has_attrs_Cons [simp]:
  "has_attrs item (n # ns) \<longleftrightarrow> (\<exists>v. getattr item n = Inr v) \<and> has_attrs item ns"
  by (cases "getattr item n") (auto simp: has_attrs_def)

lemma has_attrs_Nil [simp]: "has_attrs item []"
  by (simp add: has_attrs_def)

lemma has_attrs_append [simp]:
  "has_attrs item (ms @ ns) \<longleftrightarrow> has_attrs item ms \<and> has_attrs item ns"
  by (simp add: has_attrs_def)

subsection \<open>Test payloads\<close>

lemma critical_and_template_iff:
  "critical_and_template test attrs h = (Inr d, h') \<longleftrightarrow>
     (\<exists>c t. getattr test ''critical'' = Inr c \<and> getattr test ''template'' = Inr t \<and>
        d = dict_set ''template'' (py_or h t (PStr []))
              (dict_set ''critical'' (yes_no h c) attrs) \<and> h' = h)"
  by (auto simp: critical_and_template_def sbind_Inr_iff)

lemma start_test_attrs_iff:
  "start_test_attrs test h = (Inr d, h') \<longleftrightarrow>
     (\<exists>attrs c t. get_attrs test start_attrs [''tags''] h = (Inr attrs, h') \<and>
        getattr test ''critical'' = Inr c \<and> getattr test ''template'' = Inr t \<and>
        d = dict_set ''template'' (py_or h' t (PStr []))
              (dict_set ''critical'' (yes_no h' c) attrs))"
  by (auto simp: start_test_attrs_def get_start_attrs_def sbind_Inr_iff critical_and_template_iff)

lemma end_test_attrs_iff:
  "end_test_attrs test h = (Inr d, h') \<longleftrightarrow>
     (\<exists>attrs c t. get_attrs test end_attrs [''tags''] h = (Inr attrs, h') \<and>
        getattr test ''critical'' = Inr c \<and> getattr test ''template'' = Inr t \<and>
        d = dict_set ''template'' (py_or h' t (PStr []))
              (dict_set ''critical'' (yes_no h' c) attrs))"
  by (auto simp: end_test_attrs_def get_end_attrs_def sbind_Inr_iff critical_and_template_iff)

lemma test_attr_names:
  "get_attr_names start_attrs [''tags''] = [''id'', ''doc'', ''starttime'', ''longname'', ''tags'']"
  "get_attr_names end_attrs [''tags''] =
     [''id'', ''doc'', ''starttime'', ''longname'', ''endtime'', ''elapsedtime'', ''status'',
      ''message'', ''tags'']"
  by (simp_all add: get_attr_names_def start_attrs_def end_attrs_def startswith_dash_def)

lemma end_test_attrs_keys:
  assumes "end_test_attrs test h = (Inr d, h')"
  shows "fst ` set d =
           {''template'', ''critical'', ''id'', ''doc'', ''starttime'', ''longname'', ''endtime'',
            ''elapsedtime'', ''status'', ''message'', ''tags''}"
proof -
  from assms obtain attrs c t where a: "get_attrs test end_attrs [''tags''] h = (Inr attrs, h')"
    and d: "d = dict_set ''template'' (py_or h' t (PStr []))
              (dict_set ''critical'' (yes_no h' c) attrs)"
    by (auto simp: end_test_attrs_iff)
  from get_attrs_keys [OF a] have "fst ` set attrs = set (get_attr_names end_attrs [''tags''])" .
  with d show ?thesis by (simp add: test_attr_names)
qed

lemma test_attrs_fresh:
  assumes "plain test ''template''"
    and "start_test_attrs test h = (Inr d, h') \<or> end_test_attrs test h = (Inr d, h')"
  shows "fresh_from (length h) d"
proof -
  from assms(2) obtain dflt attrs c t where a: "get_attrs test dflt [''tags''] h = (Inr attrs, h')"
    and t: "getattr test ''template'' = Inr t"
    and d: "d = dict_set ''template'' (py_or h' t (PStr []))
              (dict_set ''critical'' (yes_no h' c) attrs)"
    by (auto simp: start_test_attrs_iff end_test_attrs_iff)
  have 1: "fresh_from (length h) attrs" using a by (rule get_attrs_fresh)
  have 2: "fresh_from (length h) (dict_set ''critical'' (yes_no h' c) attrs)"
    using 1 by (rule fresh_from_dict_set) (simp add: yes_no_def)
  have 3: "py_or h' t (PStr []) = PRef b \<Longrightarrow> length h \<le> b" for b
    using plainD [OF assms(1) t, of b] by (simp add: py_or_def split: if_splits)
  show ?thesis unfolding d by (rule fresh_from_dict_set [OF 2 3])
qed

lemma test_attrs_total:
  assumes "has_attrs test (get_attr_names dflt [''tags''] @ [''critical'', ''template''])"
  shows "\<exists>d h'. sbind (get_attrs test dflt [''tags'']) (critical_and_template test) h = (Inr d, h')"
proof -
  from assms have a: "has_attrs test (get_attr_names dflt [''tags''])"
    and c: "\<exists>c. getattr test ''critical'' = Inr c" and t: "\<exists>t. getattr test ''template'' = Inr t"
    by simp_all
  from get_attrs_total [OF a, of h] obtain attrs h' where
    "get_attrs test dflt [''tags''] h = (Inr attrs, h')" by blast
  with c t show ?thesis by (auto simp: sbind_Inr_iff critical_and_template_iff)
qed


subsection \<open>Suite payloads\<close>

lemma name_list_iff:
  "name_list item n h = (Inr v, h') \<longleftrightarrow>
     (\<exists>u ts ns. getattr item n = Inr u \<and> py_iter h u = Inr ts \<and> names_of ts = Inr ns \<and>
        v = PRef (length h) \<and> h' = h @ [OList ns])"
  by (auto simp: name_list_def alloc_def split: sum.splits)

lemma get_suite_attrs_iff:
  "get_suite_attrs suite h = (Inr d, h') \<longleftrightarrow>
     (\<exists>tests h1 suites total source.
        name_list suite ''tests'' h = (Inr tests, h1) \<and>
        name_list suite ''suites'' h1 = (Inr suites, h') \<and>
        getattr suite ''test_count'' = Inr total \<and> getattr suite ''source'' = Inr source \<and>
        d = [(''tests'', tests), (''suites'', suites), (''totaltests'', total),
             (''source'', py_or h' source (PStr []))])"
  by (auto simp: get_suite_attrs_def sbind_Inr_iff)

lemma get_suite_attrs_fresh:
  assumes "plain suite ''test_count''" "plain suite ''source''"
    and "get_suite_attrs suite h = (Inr d, h')"
  shows "fresh_from (length h) d"
proof -
  from assms(3) obtain tests h1 suites total source where
    t: "name_list suite ''tests'' h = (Inr tests, h1)"
    and s: "name_list suite ''suites'' h1 = (Inr suites, h')"
    and c: "getattr suite ''test_count'' = Inr total" and o: "getattr suite ''source'' = Inr source"
    and d: "d = [(''tests'', tests), (''suites'', suites), (''totaltests'', total),
             (''source'', py_or h' source (PStr []))]"
    by (auto simp: get_suite_attrs_iff)
  from t have t': "tests = PRef (length h)" and l: "length h \<le> length h1"
    by (auto simp: name_list_iff)
  from s have s': "suites = PRef (length h1)" by (auto simp: name_list_iff)
  have c': "total = PRef b \<Longrightarrow> length h \<le> b" for b
    using plainD [OF assms(1) c, of b] by simp
  have o': "py_or h' source (PStr []) = PRef b \<Longrightarrow> length h \<le> b" for b
    using plainD [OF assms(2) o, of b] by (simp add: py_or_def split: if_splits)
  show ?thesis unfolding d using t' s' l c' o' by (simp add: fresh_from_Cons)
qed

lemma py_iter_extends:
  "py_iter h0 v = Inr ts \<Longrightarrow> extends h0 h \<Longrightarrow> py_iter h v = Inr ts"
proof (cases v)
  case (PRef a)
  assume i: "py_iter h0 v = Inr ts" and e: "extends h0 h"
  from i PRef have a: "a < length h0" by (auto simp: py_iter_def split: if_splits)
  with e have "a < length h" "h ! a = h0 ! a"
    using extends_length [OF e] extends_nth [OF e] by auto
  with i PRef a show ?thesis by (simp add: py_iter_def)
qed (auto simp: py_iter_def)

lemma names_of_total:
  "list_all (\<lambda>t. \<not> isl (getattr t ''name'')) ts \<Longrightarrow> \<exists>ns. names_of ts = Inr ns"
proof (induction ts)
  case Nil
  show ?case by simp
next
  case (Cons t ts)
  then obtain n ns where "getattr t ''name'' = Inr n" "names_of ts = Inr ns"
    by (cases "getattr t ''name''") auto
  then show ?case by simp
qed

lemma name_list_total:
  assumes "has_names h0 item k" "extends h0 h"
  shows "\<exists>v h'. name_list item k h = (Inr v, h')"
proof -
  from assms(1) obtain u ts where u: "getattr item k = Inr u" and i: "py_iter h0 u = Inr ts"
    and a: "list_all (\<lambda>t. \<not> isl (getattr t ''name'')) ts"
    by (auto simp: has_names_def split: sum.splits)
  from names_of_total [OF a] obtain ns where "names_of ts = Inr ns" by blast
  with u py_iter_extends [OF i assms(2)] show ?thesis by (simp add: name_list_iff)
qed

lemma get_suite_attrs_total:
  assumes "has_names h0 suite ''tests''" "has_names h0 suite ''suites''"
    and "has_attrs suite [''test_count'', ''source'']" and "extends h0 h"
  shows "\<exists>d h'. get_suite_attrs suite h = (Inr d, h')"
proof -
  from name_list_total [OF assms(1,4)] obtain tests h1 where
    t: "name_list suite ''tests'' h = (Inr tests, h1)" by blast
  have "extends h h1" using t by (rule sframeD [OF sframe_name_list])
  with assms(4) have "extends h0 h1" by (rule extends_trans)
  from name_list_total [OF assms(2) this] obtain suites h' where
    s: "name_list suite ''suites'' h1 = (Inr suites, h')" by blast
  from assms(3) t s show ?thesis by (auto simp: get_suite_attrs_iff) 
qed

lemma start_suite_attrs_iff:
  "start_suite_attrs suite h = (Inr d, h') \<longleftrightarrow>
     (\<exists>attrs h1 more. get_attrs suite start_attrs [''metadata''] h = (Inr attrs, h1) \<and>
        get_suite_attrs suite h1 = (Inr more, h') \<and> d = dict_update attrs more)"
  by (auto simp: start_suite_attrs_def get_start_attrs_def sbind_Inr_iff)

lemma end_suite_attrs_iff:
  "end_suite_attrs suite h = (Inr d, h') \<longleftrightarrow>
     (\<exists>attrs h1 stat more. get_attrs suite end_attrs [''metadata''] h = (Inr attrs, h1) \<and>
        getattr suite ''stat_message'' = Inr stat \<and>
        get_suite_attrs suite h1 = (Inr more, h') \<and>
        d = dict_update (dict_set ''statistics'' stat attrs) more)"
  by (auto simp: end_suite_attrs_def get_end_attrs_def sbind_Inr_iff)

lemma start_suite_attrs_fresh:
  assumes "plain suite ''test_count''" "plain suite ''source''"
    and "start_suite_attrs suite h = (Inr d, h')"
  shows "fresh_from (length h) d"
proof -
  from assms(3) obtain attrs h1 more where
    a: "get_attrs suite start_attrs [''metadata''] h = (Inr attrs, h1)"
    and m: "get_suite_attrs suite h1 = (Inr more, h')" and d: "d = dict_update attrs more"
    by (auto simp: start_suite_attrs_iff)
  have l: "length h \<le> length h1"
    using a by (intro extends_length sframeD [OF sframe_get_attrs])
  have "fresh_from (length h) more"
    using get_suite_attrs_fresh [OF assms(1,2) m] l by (rule fresh_from_mono)
  with get_attrs_fresh [OF a] show ?thesis unfolding d by (rule fresh_from_dict_update)
qed

lemma end_suite_attrs_fresh:
  assumes "plain suite ''test_count''" "plain suite ''source''" "plain suite ''stat_message''"
    and "end_suite_attrs suite h = (Inr d, h')"
  shows "fresh_from (length h) d"
proof -
  from assms(4) obtain attrs h1 stat more where
    a: "get_attrs suite end_attrs [''metadata''] h = (Inr attrs, h1)"
    and st: "getattr suite ''stat_message'' = Inr stat"
    and m: "get_suite_attrs suite h1 = (Inr more, h')"
    and d: "d = dict_update (dict_set ''statistics'' stat attrs) more"
    by (auto simp: end_suite_attrs_iff)
  have l: "length h \<le> length h1"
    using a by (intro extends_length sframeD [OF sframe_get_attrs])
  have 1: "fresh_from (length h) more"
    using get_suite_attrs_fresh [OF assms(1,2) m] l by (rule fresh_from_mono)
  have 2: "stat = PRef b \<Longrightarrow> length h \<le> b" for b
    using plainD [OF assms(3) st, of b] by simp
  have "fresh_from (length h) (dict_set ''statistics'' stat attrs)"
    by (rule fresh_from_dict_set [OF get_attrs_fresh [OF a] 2])
  then show ?thesis unfolding d using 1 by (rule fresh_from_dict_update)
qed

lemma suite_attrs_total:
  assumes "has_attrs suite (get_attr_names dflt [''metadata''])"
    and "has_names h0 suite ''tests''" "has_names h0 suite ''suites''"
    and "has_attrs suite [''test_count'', ''source'']" and "extends h0 h"
  shows "\<exists>attrs h1 more h'. get_attrs suite dflt [''metadata''] h = (Inr attrs, h1) \<and>
           get_suite_attrs suite h1 = (Inr more, h')"
proof -
  from get_attrs_total [OF assms(1), of h] obtain attrs h1 where
    a: "get_attrs suite dflt [''metadata''] h = (Inr attrs, h1)" by blast
  have "extends h h1" using a by (rule sframeD [OF sframe_get_attrs])
  with assms(5) have "extends h0 h1" by (rule extends_trans)
  from get_suite_attrs_total [OF assms(2,3,4) this] a show ?thesis by blast
qed

subsection \<open>Message payloads\<close>

lemma create_msg_dict_iff:
  "create_msg_dict msg h = (Inr d, h') \<longleftrightarrow>
     (\<exists>ts text level html. getattr msg ''timestamp'' = Inr ts \<and> getattr msg ''message'' = Inr text \<and>
        getattr msg ''level'' = Inr level \<and> getattr msg ''html'' = Inr html \<and>
        d = [(''timestamp'', ts), (''message'', text), (''level'', level),
             (''html'', yes_no h html)] \<and> h' = h)"
  by (auto simp: create_msg_dict_def sbind_Inr_iff)

lemma create_msg_dict_fresh:
  assumes "plain msg ''timestamp''" "plain msg ''message''" "plain msg ''level''"
    and "create_msg_dict msg h = (Inr d, h')"
  shows "fresh_from n d"
proof -
  from assms(4) obtain ts body level html where
    g: "getattr msg ''timestamp'' = Inr ts" "getattr msg ''message'' = Inr body"
       "getattr msg ''level'' = Inr level"
    and d: "d = [(''timestamp'', ts), (''message'', body), (''level'', level),
             (''html'', yes_no h html)]"
    by (auto simp: create_msg_dict_iff)
  have "ts = PRef b \<Longrightarrow> n \<le> b" "body = PRef b \<Longrightarrow> n \<le> b"
    "level = PRef b \<Longrightarrow> n \<le> b" for b
    using plainD [OF assms(1) g(1), of b] plainD [OF assms(2) g(2), of b]
      plainD [OF assms(3) g(3), of b] by simp_all
  then show ?thesis unfolding d by (simp add: fresh_from_Cons yes_no_def)
qed


subsection \<open>Keyword payloads\<close>

lemma keyword_attrs_iff:
  "keyword_attrs dflt kw start s = (Inr d, s') \<longleftrightarrow>
     (\<exists>attrs h' ty. get_attrs kw dflt kw_extra_attrs (store s) = (Inr attrs, h') \<and>
        get_keyword_type kw start (s\<lparr>store := h'\<rparr>) = (Inr ty, s') \<and>
        d = dict_set ''type'' (PStr ty) attrs)"
  by (auto simp: keyword_attrs_def tbind_Inr_iff in_store_iff)

lemma kw_attr_names:
  "get_attr_names start_attrs kw_extra_attrs =
     [''doc'', ''starttime'', ''args'', ''assign'', ''kwname'', ''libname'']"
  "get_attr_names end_attrs kw_extra_attrs =
     [''doc'', ''starttime'', ''endtime'', ''elapsedtime'', ''status'',
      ''args'', ''assign'', ''kwname'', ''libname'']"
  by (simp_all add: get_attr_names_def start_attrs_def end_attrs_def kw_extra_attrs_def
      startswith_dash_def)

lemma get_keyword_type_str:
  assumes "getattr kw ''type'' = Inr (PStr ty)"
  shows "get_keyword_type kw start s =
           (if ty = ''kw''
            then (Inr (case setup_or_teardown_type s of
                         None \<Rightarrow> ''Keyword''
                       | Some t \<Rightarrow> (if t = [] then ''Keyword'' else t)), s)
            else (Inr ((if running_test s then ''Test'' else ''Suite'') @ '' '' @ title ty),
                  s\<lparr>setup_or_teardown_type :=
                      (if start
                       then Some ((if running_test s then ''Test'' else ''Suite'') @ '' '' @ title ty)
                       else None)\<rparr>))"
  using assms by (simp add: get_keyword_type_def get_setup_or_teardown_type_def)

lemma keyword_attrs_keys:
  "keyword_attrs dflt kw start s = (Inr d, s') \<Longrightarrow>
   fst ` set d = insert ''type'' (set (get_attr_names dflt kw_extra_attrs))"
proof -
  assume "keyword_attrs dflt kw start s = (Inr d, s')"
  then obtain attrs h' ty where
    a: "get_attrs kw dflt kw_extra_attrs (store s) = (Inr attrs, h')"
    and d: "d = dict_set ''type'' (PStr ty) attrs"
    by (auto simp: keyword_attrs_iff)
  from get_attrs_keys [OF a] d show ?thesis by simp
qed

lemma keyword_attrs_fresh:
  assumes "keyword_attrs dflt kw start s = (Inr d, s')"
  shows "fresh_from (length (store s)) d"
proof -
  from assms obtain attrs h' ty where
    a: "get_attrs kw dflt kw_extra_attrs (store s) = (Inr attrs, h')"
    and d: "d = dict_set ''type'' (PStr ty) attrs"
    by (auto simp: keyword_attrs_iff)
  show ?thesis unfolding d by (rule fresh_from_dict_set [OF get_attrs_fresh [OF a]]) simp
qed

lemma keyword_attrs_total:
  assumes "has_attrs kw (get_attr_names dflt kw_extra_attrs)" "has_str_type kw"
  shows "\<exists>d s'. keyword_attrs dflt kw start s = (Inr d, s')"
proof -
  from get_attrs_total [OF assms(1), of "store s"] obtain attrs h' where
    a: "get_attrs kw dflt kw_extra_attrs (store s) = (Inr attrs, h')" by blast
  from assms(2) obtain ty where "getattr kw ''type'' = Inr (PStr ty)"
    by (auto simp: has_str_type_def split: sum.splits pyval.splits)
  from get_keyword_type_str [OF this, of start "s\<lparr>store := h'\<rparr>"]
  obtain t s' where "get_keyword_type kw start (s\<lparr>store := h'\<rparr>) = (Inr t, s')"
    by (cases "ty = ''kw''") auto
  with a show ?thesis by (auto simp: keyword_attrs_iff)
qed

subsection \<open>Method references\<close>

lemma proxy_attr_iff:
  "proxy_attr p n = Inr m \<longleftrightarrow>
     n \<in> set methods \<and>
     m = (case map_of (meths (logger p)) n of Some m \<Rightarrow> m | None \<Rightarrow> no_method)"
  by (auto simp: proxy_attr_def)

lemma named_call_iff:
  "named_call p mname item attrs = Inr (m, args) \<longleftrightarrow>
     (\<exists>nm. proxy_attr p mname = Inr m \<and> getattr item ''name'' = Inr nm \<and>
        args = [Val nm, Attrs attrs])"
  by (auto simp: named_call_def split: sum.splits)

lemma method_ref_iff:
  "method_ref p n args = Inr (m, args') \<longleftrightarrow> proxy_attr p n = Inr m \<and> args' = args"
  by (auto simp: method_ref_def split: sum.splits)

lemma msg_call_iff:
  "msg_call p mname msg s = (Inr (m, args), s') \<longleftrightarrow>
     (\<exists>d h'. proxy_attr p mname = Inr m \<and> create_msg_dict msg (store s) = (Inr d, h') \<and>
        args = [Attrs d] \<and> s' = s\<lparr>store := h'\<rparr>)"
  by (auto simp: msg_call_def tbind_Inr_iff in_store_iff)

lemma methods_mem [simp]:
  "''start_suite'' \<in> set methods" "''end_suite'' \<in> set methods"
  "''start_test'' \<in> set methods" "''end_test'' \<in> set methods"
  "''start_keyword'' \<in> set methods" "''end_keyword'' \<in> set methods"
  "''log_message'' \<in> set methods" "''message'' \<in> set methods" "''close'' \<in> set methods"
  by (simp_all add: methods_def)

text \<open>The shape of what argument evaluation returns, event by event.\<close>

lemma prep_of_iff:
  "prep_of (Start_suite suite) p s = (Inr (m, args), s') \<longleftrightarrow>
     (\<exists>d h' nm. start_suite_attrs suite (store s) = (Inr d, h') \<and> s' = s\<lparr>store := h'\<rparr> \<and>
        proxy_attr p ''start_suite'' = Inr m \<and> getattr suite ''name'' = Inr nm \<and>
        args = [Val nm, Attrs d])"
  "prep_of (End_suite suite) p s = (Inr (m, args), s') \<longleftrightarrow>
     (\<exists>d h' nm. end_suite_attrs suite (store s) = (Inr d, h') \<and> s' = s\<lparr>store := h'\<rparr> \<and>
        proxy_attr p ''end_suite'' = Inr m \<and> getattr suite ''name'' = Inr nm \<and>
        args = [Val nm, Attrs d])"
  "prep_of (Start_test test) p s = (Inr (m, args), s') \<longleftrightarrow>
     (\<exists>d h' nm. start_test_attrs test (store s) = (Inr d, h') \<and> s' = s\<lparr>store := h'\<rparr> \<and>
        proxy_attr p ''start_test'' = Inr m \<and> getattr test ''name'' = Inr nm \<and>
        args = [Val nm, Attrs d])"
  "prep_of (End_test test) p s = (Inr (m, args), s') \<longleftrightarrow>
     (\<exists>d h' nm. end_test_attrs test (store s) = (Inr d, h') \<and> s' = s\<lparr>store := h'\<rparr> \<and>
        proxy_attr p ''end_test'' = Inr m \<and> getattr test ''name'' = Inr nm \<and>
        args = [Val nm, Attrs d])"
  "prep_of (Start_keyword kw) p s = (Inr (m, args), s') \<longleftrightarrow>
     (\<exists>d nm. keyword_attrs start_attrs kw True s = (Inr d, s') \<and>
        proxy_attr p ''start_keyword'' = Inr m \<and> getattr kw ''name'' = Inr nm \<and>
        args = [Val nm, Attrs d])"
  "prep_of (End_keyword kw) p s = (Inr (m, args), s') \<longleftrightarrow>
     (\<exists>d nm. keyword_attrs end_attrs kw False s = (Inr d, s') \<and>
        proxy_attr p ''end_keyword'' = Inr m \<and> getattr kw ''name'' = Inr nm \<and>
        args = [Val nm, Attrs d])"
  "prep_of (Imported import_type inm attrs) p s = (Inr (m, args), s') \<longleftrightarrow>
     proxy_attr p (lower import_type @ ''_import'') = Inr m \<and>
     args = [Val inm, Val attrs] \<and> s' = s"
  "prep_of (Log_message msg) p s = (Inr (m, args), s') \<longleftrightarrow>
     (\<exists>d h'. proxy_attr p ''log_message'' = Inr m \<and>
        create_msg_dict msg (store s) = (Inr d, h') \<and> args = [Attrs d] \<and> s' = s\<lparr>store := h'\<rparr>)"
  "prep_of (Message msg) p s = (Inr (m, args), s') \<longleftrightarrow>
     (\<exists>d h'. proxy_attr p ''message'' = Inr m \<and>
        create_msg_dict msg (store s) = (Inr d, h') \<and> args = [Attrs d] \<and> s' = s\<lparr>store := h'\<rparr>)"
  "prep_of (Output_file file_type path) p s = (Inr (m, args), s') \<longleftrightarrow>
     proxy_attr p (lower file_type @ ''_file'') = Inr m \<and> args = [Val path] \<and> s' = s"
  "prep_of Close p s = (Inr (m, args), s') \<longleftrightarrow>
     proxy_attr p ''close'' = Inr m \<and> args = [] \<and> s' = s"
  by (auto simp: prep_of_def tbind_Inr_iff in_store_iff named_call_iff method_ref_iff msg_call_iff)


lemma prep_of_target:
  "prep_of ev p s = (Inr (m, args), s') \<Longrightarrow> m = target p ev"
  by (cases ev) (auto simp: prep_of_iff proxy_attr_iff target_def event_method_def)

lemma prep_of_fresh:
  assumes "plain_scalars ev" "prep_of ev p s = (Inr (m, args), s')" "Attrs d \<in> set args"
  shows "fresh_from (length (store s)) d"
proof (cases ev)
  case (Start_suite suite)
  with assms show ?thesis
    by (auto simp: prep_of_iff plain_scalars_def intro: start_suite_attrs_fresh)
next
  case (End_suite suite)
  with assms show ?thesis
    by (auto simp: prep_of_iff plain_scalars_def intro: end_suite_attrs_fresh)
next
  case (Start_test test)
  with assms show ?thesis
    by (auto simp: prep_of_iff plain_scalars_def intro: test_attrs_fresh)
next
  case (End_test test)
  with assms show ?thesis
    by (auto simp: prep_of_iff plain_scalars_def intro: test_attrs_fresh)
next
  case (Start_keyword kw)
  with assms show ?thesis by (auto simp: prep_of_iff intro: keyword_attrs_fresh)
next
  case (End_keyword kw)
  with assms show ?thesis by (auto simp: prep_of_iff intro: keyword_attrs_fresh)
next
  case (Imported import_type inm attrs)
  with assms show ?thesis by (auto simp: prep_of_iff)
next
  case (Log_message msg)
  with assms show ?thesis
    by (auto simp: prep_of_iff plain_scalars_def intro: create_msg_dict_fresh)
next
  case (Message msg)
  with assms show ?thesis
    by (auto simp: prep_of_iff plain_scalars_def intro: create_msg_dict_fresh)
next
  case (Output_file file_type path)
  with assms show ?thesis by (auto simp: prep_of_iff)
next
  case Close
  with assms show ?thesis by (auto simp: prep_of_iff)
qed

lemma one_extra_name: "\<not> startswith_dash n \<Longrightarrow> get_attr_names dflt [n] = dflt @ [n]"
  by (simp add: get_attr_names_def)

lemma not_dash [simp]: "\<not> startswith_dash ''metadata''" "\<not> startswith_dash ''tags''"
  by (simp_all add: startswith_dash_def)

lemma create_msg_dict_total:
  "has_attrs msg [''timestamp'', ''message'', ''level'', ''html''] \<Longrightarrow>
   \<exists>d. create_msg_dict msg h = (Inr d, h)"
  by (auto simp: create_msg_dict_iff)

lemma prep_of_total:
  assumes "event_ok h0 ev" "extends h0 (store s)"
  shows "\<exists>m args s'. prep_of ev p s = (Inr (m, args), s')"
proof (cases ev)
  case (Start_suite suite)
  with assms(1) have a: "has_attrs suite (get_attr_names start_attrs [''metadata''])"
    and b: "has_names h0 suite ''tests''" "has_names h0 suite ''suites''"
    and c: "has_attrs suite [''test_count'', ''source'']"
    and n: "\<exists>nm. getattr suite ''name'' = Inr nm"
    by (simp_all add: event_ok_def one_extra_name)
  from suite_attrs_total [OF a b c assms(2)] n show ?thesis
    unfolding Start_suite by (simp add: prep_of_iff start_suite_attrs_iff proxy_attr_iff) blast
next
  case (End_suite suite)
  with assms(1) have a: "has_attrs suite (get_attr_names end_attrs [''metadata''])"
    and b: "has_names h0 suite ''tests''" "has_names h0 suite ''suites''"
    and c: "has_attrs suite [''test_count'', ''source'']"
    and n: "\<exists>nm. getattr suite ''name'' = Inr nm"
    and st: "\<exists>stat. getattr suite ''stat_message'' = Inr stat"
    by (simp_all add: event_ok_def one_extra_name)
  from suite_attrs_total [OF a b c assms(2)] n st show ?thesis
    unfolding End_suite by (simp add: prep_of_iff end_suite_attrs_iff proxy_attr_iff) blast
next
  case (Start_test test)
  with assms(1) have a: "has_attrs test (get_attr_names start_attrs [''tags''] @ [''critical'', ''template''])"
    and n: "\<exists>nm. getattr test ''name'' = Inr nm"
    by (simp_all add: event_ok_def one_extra_name)
  from test_attrs_total [OF a, of "store s"] n show ?thesis
    unfolding Start_test
    by (simp add: prep_of_iff start_test_attrs_def get_start_attrs_def proxy_attr_iff) blast
next
  case (End_test test)
  with assms(1) have a: "has_attrs test (get_attr_names end_attrs [''tags''] @ [''critical'', ''template''])"
    and n: "\<exists>nm. getattr test ''name'' = Inr nm"
    by (simp_all add: event_ok_def one_extra_name)
  from test_attrs_total [OF a, of "store s"] n show ?thesis
    unfolding End_test
    by (simp add: prep_of_iff end_test_attrs_def get_end_attrs_def proxy_attr_iff) blast
next
  case (Start_keyword kw)
  with assms(1) have a: "has_attrs kw (get_attr_names start_attrs kw_extra_attrs)"
    and t: "has_str_type kw" and n: "\<exists>nm. getattr kw ''name'' = Inr nm"
    by (simp_all add: event_ok_def)
  from keyword_attrs_total [OF a t, of True s] n show ?thesis
    unfolding Start_keyword by (simp add: prep_of_iff proxy_attr_iff) blast
next
  case (End_keyword kw)
  with assms(1) have a: "has_attrs kw (get_attr_names end_attrs kw_extra_attrs)"
    and t: "has_str_type kw" and n: "\<exists>nm. getattr kw ''name'' = Inr nm"
    by (simp_all add: event_ok_def)
  from keyword_attrs_total [OF a t, of False s] n show ?thesis
    unfolding End_keyword by (simp add: prep_of_iff proxy_attr_iff) blast
next
  case (Imported import_type inm attrs)
  with assms(1) show ?thesis by (simp add: event_ok_def prep_of_iff proxy_attr_iff)
next
  case (Log_message msg)
  with assms(1) have "has_attrs msg [''timestamp'', ''message'', ''level'', ''html'']"
    by (simp add: event_ok_def)
  from create_msg_dict_total [OF this, of "store s"] show ?thesis
    unfolding Log_message by (simp add: prep_of_iff proxy_attr_iff) blast
next
  case (Message msg)
  with assms(1) have "has_attrs msg [''timestamp'', ''message'', ''level'', ''html'']"
    by (simp add: event_ok_def)
  from create_msg_dict_total [OF this, of "store s"] show ?thesis
    unfolding Message by (simp add: prep_of_iff proxy_attr_iff) blast
next
  case (Output_file file_type path)
  with assms(1) show ?thesis by (simp add: event_ok_def prep_of_iff proxy_attr_iff)
next
  case Close
  show ?thesis unfolding Close by (simp add: prep_of_iff proxy_attr_iff)
qed


text \<open>The loop when argument evaluation cannot fail: it returns normally, every
  adapter is called once, in order, with arguments that satisfy \<open>Q\<close>, and the log
  grows by what each call logs.\<close>

lemma for_listeners_trace:
  assumes g: "guarded reg" and fr: "\<And>p. frame (prep p)"
    and tg: "\<And>p s m args s1. prep p s = (Inr (m, args), s1) \<Longrightarrow> m = T p"
    and ok: "\<And>p s. I s \<Longrightarrow> \<exists>m args s1. prep p s = (Inr (m, args), s1) \<and> I' s1 \<and> Q args"
    and weaken: "\<And>s. I' s \<Longrightarrow> I s"
    and jcall: "\<And>s c l. I' s \<Longrightarrow> I' (s\<lparr>calls := c, log := l\<rparr>)"
  shows "recursion s \<Longrightarrow> I s \<Longrightarrow> \<forall>p\<in>set ps. outcome (T p) = Inr () \<Longrightarrow>
         \<exists>s' cs. for_listeners (\<lambda>p. call_with reg p (prep p)) ps s = Some (Inr (), s') \<and>
           recursion s' \<and> (if ps = [] then s' = s else I' s') \<and>
           calls s' = calls s @ cs \<and> map receiver cs = map name ps \<and>
           map called cs = map (\<lambda>p. meth_name (T p)) ps \<and>
           (\<forall>c\<in>set cs. Q (call_args c)) \<and>
           log s' = log s @ concat (map (\<lambda>p. failure_log p (T p)) ps)"
proof (induction ps arbitrary: s)
  case Nil
  then show ?case by simp
next
  case (Cons p ps)
  from ok [OF Cons.prems(2), of p] obtain m args s1 where
    ps1: "prep p s = (Inr (m, args), s1)" and i1: "I' s1" and q: "Q args"
    by blast
  have m: "m = T p" using ps1 by (rule tg)
  have f1: "recursion s1" "calls s1 = calls s" "log s1 = log s"
    using frameD(1,2,3) [OF fr ps1] Cons.prems(1) by simp_all
  let ?c = "Call (name p) (meth_name m) args"
  let ?s = "s1\<lparr>calls := calls s1 @ [?c], log := log s1 @ failure_log p m\<rparr>"
  have cw: "call_with reg p (prep p) s = Some (Inr (), ?s)"
    using ps1 m Cons.prems(3) by (simp add: call_with_guarded [OF g fr Cons.prems(1)])
  have tame: "\<forall>p\<in>set ps. outcome (T p) = Inr ()" using Cons.prems(3) by simp
  have r: "recursion ?s" using f1 by simp
  have i': "I' ?s" using i1 by (rule jcall)
  then have i: "I ?s" by (rule weaken)
  from Cons.IH [OF r i tame] obtain s' cs where
    rest: "for_listeners (\<lambda>p. call_with reg p (prep p)) ps ?s = Some (Inr (), s')"
    and fl: "recursion s'" and inv: "if ps = [] then s' = ?s else I' s'"
    and cs: "calls s' = calls ?s @ cs" and rc: "map receiver cs = map name ps"
    and cl: "map called cs = map (\<lambda>p. meth_name (T p)) ps"
    and qs: "\<forall>c\<in>set cs. Q (call_args c)"
    and lg: "log s' = log ?s @ concat (map (\<lambda>p. failure_log p (T p)) ps)"
    by blast
  have 1: "for_listeners (\<lambda>p. call_with reg p (prep p)) (p # ps) s = Some (Inr (), s')"
    using cw rest by simp
  have 2: "if p # ps = [] then s' = s else I' s'"
    using inv i' by (cases "ps = []") simp_all
  have 3: "calls s' = calls s @ (?c # cs)" using cs f1 by simp
  have 4: "map receiver (?c # cs) = map name (p # ps)" using rc by simp
  have 5: "map called (?c # cs) = map (\<lambda>p. meth_name (T p)) (p # ps)" using cl m by simp
  have 6: "\<forall>c\<in>set (?c # cs). Q (call_args c)" using qs q by simp
  have 7: "log s' = log s @ concat (map (\<lambda>p. failure_log p (T p)) (p # ps))"
    using lg f1 m by simp
  show ?case using 1 fl 2 3 4 5 6 7 by blast
qed


lemma before_loop_running_test [simp]:
  "running_test (before_loop ev (s\<lparr>recursion := b\<rparr>)) = running_test (before_loop ev s)"
  by (simp add: before_loop_def split: event.splits)

text \<open>A top-level notification of a well-formed event: it returns normally, calls
  every adapter once, in order, and logs what the calls log.\<close>

lemma notify_ok:
  assumes nr: "\<not> recursion s" and ls: "listeners s = Some ps"
    and ok: "event_ok h0 ev" and ex: "extends h0 (store s)"
    and extra: "\<And>p t m args t1. prep_of ev p t = (Inr (m, args), t1) \<Longrightarrow>
        running_test t = running_test (before_loop ev s) \<Longrightarrow>
        K (setup_or_teardown_type t) \<Longrightarrow> K' (setup_or_teardown_type t1) \<and> Q args"
    and weaken: "\<And>x. K' x \<Longrightarrow> K x" and k0: "K (setup_or_teardown_type s)"
    and tame: "\<forall>p\<in>set ps. outcome (target p ev) = Inr ()"
  shows "\<exists>s' cs. notify (Suc n) ev s = Some (Inr (), s') \<and> \<not> recursion s' \<and>
           listeners s' = Some ps \<and> running_test s' = running_test (before_loop ev s) \<and>
           extends h0 (store s') \<and>
           (if ps = [] then setup_or_teardown_type s' = setup_or_teardown_type s
            else K' (setup_or_teardown_type s')) \<and>
           calls s' = calls s @ cs \<and> map receiver cs = map name ps \<and>
           map called cs = map (\<lambda>p. meth_name (target p ev)) ps \<and>
           (\<forall>c\<in>set cs. Q (call_args c)) \<and>
           log s' = log s @ concat (map (\<lambda>p. failure_log p (target p ev)) ps)"
proof -
  let ?s0 = "before_loop ev (s\<lparr>recursion := True\<rparr>)"
  let ?rt = "running_test (before_loop ev s)"
  let ?I = "\<lambda>t. extends h0 (store t) \<and> listeners t = Some ps \<and> running_test t = ?rt \<and>
                K (setup_or_teardown_type t)"
  let ?I' = "\<lambda>t. extends h0 (store t) \<and> listeners t = Some ps \<and> running_test t = ?rt \<and>
                K' (setup_or_teardown_type t)"
  have step: "\<exists>m args t1. prep_of ev p t = (Inr (m, args), t1) \<and> ?I' t1 \<and> Q args"
    if i: "?I t" for p t
  proof -
    from i have e: "extends h0 (store t)" and l: "listeners t = Some ps"
      and r: "running_test t = ?rt" and k: "K (setup_or_teardown_type t)" by blast+
    from prep_of_total [OF ok e, of p] obtain m args t1 where
      pt: "prep_of ev p t = (Inr (m, args), t1)" by blast
    have f: "listeners t1 = listeners t" "running_test t1 = running_test t"
      "extends (store t) (store t1)"
      using frameD(4,5,6) [OF frame_prep_of pt] by simp_all
    have "extends h0 (store t1)" using e f(3) by (rule extends_trans)
    moreover have "K' (setup_or_teardown_type t1) \<and> Q args" using extra [OF pt r k] .
    ultimately show ?thesis using pt f l r by auto
  qed
  have r0: "recursion ?s0" by simp
  have i0: "?I ?s0" using ex ls k0 by simp
  have "\<exists>s' cs. for_listeners (\<lambda>p. call_with (notify n) p (prep_of ev p)) ps ?s0 = Some (Inr (), s') \<and>
           recursion s' \<and> (if ps = [] then s' = ?s0 else ?I' s') \<and>
           calls s' = calls ?s0 @ cs \<and> map receiver cs = map name ps \<and>
           map called cs = map (\<lambda>p. meth_name (target p ev)) ps \<and>
           (\<forall>c\<in>set cs. Q (call_args c)) \<and>
           log s' = log ?s0 @ concat (map (\<lambda>p. failure_log p (target p ev)) ps)"
  proof (rule for_listeners_trace [where I = ?I and I' = ?I' and Q = Q
        and T = "\<lambda>p. target p ev", OF guarded_notify frame_prep_of _ _ _ _ r0 i0 tame])
    show "m = target p ev" if "prep_of ev p t = (Inr (m, args), t1)" for p t m args t1
      using that by (rule prep_of_target)
    show "\<exists>m args t1. prep_of ev p t = (Inr (m, args), t1) \<and> ?I' t1 \<and> Q args"
      if "?I t" for p t using that by (rule step)
    show "?I t" if "?I' t" for t using that weaken by blast
    show "?I' (t\<lparr>calls := c, log := l\<rparr>)" if "?I' t" for t c l using that by simp
  qed
  then obtain s1 cs where
    fl: "for_listeners (\<lambda>p. call_with (notify n) p (prep_of ev p)) ps ?s0 = Some (Inr (), s1)"
    and inv: "if ps = [] then s1 = ?s0 else ?I' s1"
    and cs: "calls s1 = calls ?s0 @ cs" "map receiver cs = map name ps"
      "map called cs = map (\<lambda>p. meth_name (target p ev)) ps" "\<forall>c\<in>set cs. Q (call_args c)"
      "log s1 = log ?s0 @ concat (map (\<lambda>p. failure_log p (target p ev)) ps)"
    by blast
  have u: "unwrapped (notify n) ev (s\<lparr>recursion := True\<rparr>) = Some (Inr (), s1)"
    using fl ls by (simp add: unwrapped_shape each_listener_def)
  let ?s' = "s1\<lparr>recursion := False\<rparr>"
  have nt: "notify (Suc n) ev s = Some (Inr (), ?s')"
    using nr u by (simp add: avoid_recursion_def)
  have a: "listeners ?s' = Some ps \<and> running_test ?s' = ?rt \<and> extends h0 (store ?s')"
    using inv ex ls by (cases "ps = []") simp_all
  have b: "if ps = [] then setup_or_teardown_type ?s' = setup_or_teardown_type s
           else K' (setup_or_teardown_type ?s')"
    using inv by (cases "ps = []") simp_all
  have c: "calls ?s' = calls s @ cs" "log ?s' = log s @ concat (map (\<lambda>p. failure_log p (target p ev)) ps)"
    using cs(1,5) by simp_all
  have d: "\<not> recursion ?s'" by simp
  show ?thesis using nt d a b c cs(2,3,4) by blast
qed


lemma notify_calls:
  assumes q: "\<And>p t m args t1. prep_of ev p t = (Inr (m, args), t1) \<Longrightarrow> J t \<Longrightarrow>
              Q (Call (name p) (meth_name m) args) \<and> J t1"
    and jfail: "\<And>p t x t1. prep_of ev p t = (Inl x, t1) \<Longrightarrow> J t \<Longrightarrow> J t1"
    and jupd: "\<And>t c l. J t \<Longrightarrow> J (t\<lparr>calls := c, log := l\<rparr>)"
    and j0: "J (before_loop ev (s\<lparr>recursion := True\<rparr>))"
    and nt: "notify (Suc n) ev s = Some (r, s')"
  shows "\<exists>cs. calls s' = calls s @ cs \<and> (\<forall>c\<in>set cs. Q c)"
proof (cases "recursion s")
  case True
  with nt have "s' = s" using notify_flag_set [of s "Suc n" ev] by simp
  then show ?thesis by simp
next
  case False
  from notify_top [OF False, of n ev] nt obtain s1 where
    u: "unwrapped (notify n) ev (s\<lparr>recursion := True\<rparr>) = Some (r, s1)"
    and s': "s' = (if isl r then s1 else s1\<lparr>recursion := False\<rparr>)"
    by auto
  have "\<exists>r s'. unwrapped (notify n) ev (s\<lparr>recursion := True\<rparr>) = Some (r, s') \<and> recursion s' \<and>
           J s' \<and> (\<exists>cs. calls s' = calls (s\<lparr>recursion := True\<rparr>) @ cs \<and> (\<forall>c\<in>set cs. Q c))"
  proof (rule unwrapped_calls [where J = J and Q = Q, OF guarded_notify _ _ _ _ j0])
    show "Q (Call (name p) (meth_name m) args) \<and> J t1"
      if "prep_of ev p t = (Inr (m, args), t1)" "J t" for p t m args t1
      using that by (rule q)
    show "J t1" if "prep_of ev p t = (Inl x, t1)" "J t" for p t x t1
      using that by (rule jfail)
    show "J (t\<lparr>calls := c, log := l\<rparr>)" if "J t" for t c l
      using that by (rule jupd)
    show "recursion (s\<lparr>recursion := True\<rparr>)" by simp
  qed
  with u obtain cs where "calls s1 = calls s @ cs" "\<forall>c\<in>set cs. Q c" by auto
  with s' show ?thesis by auto
qed

lemma new_calls_append: "calls s' = calls s @ cs \<Longrightarrow> new_calls s s' = cs"
  by (simp add: new_calls_def)


lemma notify_delivers:
  assumes "\<not> recursion s" and "listeners s = Some ps" and "event_ok (store s) ev"
    and "\<forall>p\<in>set ps. outcome (target p ev) = Inr ()"
  shows "\<exists>s' cs. notify (Suc n) ev s = Some (Inr (), s') \<and> \<not> recursion s' \<and>
           calls s' = calls s @ cs \<and> map receiver cs = map name ps \<and>
           map called cs = map (\<lambda>p. meth_name (target p ev)) ps \<and>
           log s' = log s @ concat (map (\<lambda>p. failure_log p (target p ev)) ps)"
proof -
  have "\<exists>s' cs. notify (Suc n) ev s = Some (Inr (), s') \<and> \<not> recursion s' \<and>
           listeners s' = Some ps \<and> running_test s' = running_test (before_loop ev s) \<and>
           extends (store s) (store s') \<and>
           (if ps = [] then setup_or_teardown_type s' = setup_or_teardown_type s
            else True) \<and>
           calls s' = calls s @ cs \<and> map receiver cs = map name ps \<and>
           map called cs = map (\<lambda>p. meth_name (target p ev)) ps \<and>
           (\<forall>c\<in>set cs. True) \<and>
           log s' = log s @ concat (map (\<lambda>p. failure_log p (target p ev)) ps)"
    by (rule notify_ok [where K = "\<lambda>x. True" and K' = "\<lambda>x. True" and Q = "\<lambda>a. True",
          OF assms(1,2,3) extends_refl _ _ _ assms(4)]) simp_all
  then show ?thesis by blast
qed

section \<open>Two evaluations\<close>

lemma end_test_of_a_test:
  "notify (Suc 0) (End_test a_test) two_listeners = Some (Inr (), after_end_test)"
  by code_simp

lemma start_keyword_of_a_setup:
  "notify (Suc 0) (Start_keyword (a_keyword ''Open'' ''setup'')) two_listeners =
     Some (Inr (), after_start_keyword)"
  by code_simp

lemma two_listeners_fields:
  "\<not> recursion two_listeners"
  "listeners two_listeners =
     Some [\<lparr>name = ''Raising'', version = 2, logger = raising_listener\<rparr>,
           \<lparr>name = ''Chatty'', version = 2, logger = chatty_listener\<rparr>]"
  "calls two_listeners = []"
  "store two_listeners = [OList [PStr ''smoke''], OList [PStr ''arg''], OList []]"
  by (simp_all add: two_listeners_def)

section \<open>Keyword notifications\<close>

lemma start_keyword_calls:
  assumes "notify (Suc n) (Start_keyword kw) s = Some (r, s')"
  shows "\<exists>cs. calls s' = calls s @ cs \<and>
           (\<forall>c\<in>set cs. \<exists>nm d. call_args c = [Val nm, Attrs d] \<and>
              fst ` set d = start_keyword_keys)"
proof (rule notify_calls [where J = "\<lambda>t. True", OF _ _ _ _ assms])
  show "(\<exists>nm d. call_args (Call (name p) (meth_name m) args) = [Val nm, Attrs d] \<and>
              fst ` set d = start_keyword_keys) \<and> True"
    if "prep_of (Start_keyword kw) p t = (Inr (m, args), t1)" for p t m args t1
  proof -
    from that obtain nm d where a: "args = [Val nm, Attrs d]"
      and k: "keyword_attrs start_attrs kw True t = (Inr d, t1)"
      unfolding prep_of_iff by blast
    from keyword_attrs_keys [OF k] have "fst ` set d = start_keyword_keys"
      unfolding kw_attr_names start_keyword_keys_def by simp
    with a show ?thesis by simp
  qed
qed simp_all

lemma end_keyword_calls:
  assumes "notify (Suc n) (End_keyword kw) s = Some (r, s')"
  shows "\<exists>cs. calls s' = calls s @ cs \<and>
           (\<forall>c\<in>set cs. \<exists>nm d. call_args c = [Val nm, Attrs d] \<and>
              fst ` set d = end_keyword_keys)"
proof (rule notify_calls [where J = "\<lambda>t. True", OF _ _ _ _ assms])
  show "(\<exists>nm d. call_args (Call (name p) (meth_name m) args) = [Val nm, Attrs d] \<and>
              fst ` set d = end_keyword_keys) \<and> True"
    if "prep_of (End_keyword kw) p t = (Inr (m, args), t1)" for p t m args t1
  proof -
    from that obtain nm d where a: "args = [Val nm, Attrs d]"
      and k: "keyword_attrs end_attrs kw False t = (Inr d, t1)"
      unfolding prep_of_iff by blast
    from keyword_attrs_keys [OF k] have "fst ` set d = end_keyword_keys"
      unfolding kw_attr_names end_keyword_keys_def by simp
    with a show ?thesis by simp
  qed
qed simp_all

lemma keyword_key_facts:
  "{''id'', ''longname'', ''message''} \<inter> (start_keyword_keys \<union> end_keyword_keys) = {}"
  "{''args'', ''assign'', ''kwname'', ''libname'', ''type''}
     \<subseteq> start_keyword_keys \<inter> end_keyword_keys"
  by (simp_all add: start_keyword_keys_def end_keyword_keys_def)

section \<open>References in payloads\<close>

lemma notify_fresh:
  assumes pl: "plain_scalars ev" and nt: "notify (Suc n) ev s = Some (r, s')"
  shows "extends (store s) (store s') \<and>
         (\<exists>cs. calls s' = calls s @ cs \<and>
            (\<forall>c\<in>set cs. \<forall>d. Attrs d \<in> set (call_args c) \<longrightarrow>
               fresh_from (length (store s)) d))"
proof (cases "recursion s")
  case True
  with nt have "s' = s" using notify_flag_set [of s "Suc n" ev] by simp
  then show ?thesis by simp
next
  case False
  let ?J = "\<lambda>t. extends (store s) (store t)"
  let ?Q = "\<lambda>c. \<forall>d. Attrs d \<in> set (call_args c) \<longrightarrow> fresh_from (length (store s)) d"
  from notify_top [OF False, of n ev] nt obtain s1 where
    u: "unwrapped (notify n) ev (s\<lparr>recursion := True\<rparr>) = Some (r, s1)"
    and s': "s' = (if isl r then s1 else s1\<lparr>recursion := False\<rparr>)"
    by auto
  have "\<exists>r s'. unwrapped (notify n) ev (s\<lparr>recursion := True\<rparr>) = Some (r, s') \<and> recursion s' \<and>
           ?J s' \<and> (\<exists>cs. calls s' = calls (s\<lparr>recursion := True\<rparr>) @ cs \<and> (\<forall>c\<in>set cs. ?Q c))"
  proof (rule unwrapped_calls [where J = ?J and Q = ?Q, OF guarded_notify])
    show "?Q (Call (name p) (meth_name m) args) \<and> ?J t1"
      if a: "prep_of ev p t = (Inr (m, args), t1)" and j: "?J t" for p t m args t1
    proof -
      have e: "extends (store t) (store t1)" using frameD(6) [OF frame_prep_of a] .
      have "fresh_from (length (store s)) d" if "Attrs d \<in> set args" for d
        using prep_of_fresh [OF pl a that] extends_length [OF j] by (rule fresh_from_mono)
      moreover have "?J t1" using j e by (rule extends_trans)
      ultimately show ?thesis by simp
    qed
    show "?J t1" if a: "prep_of ev p t = (Inl x, t1)" and j: "?J t" for p t x t1
      using j frameD(6) [OF frame_prep_of a] by (rule extends_trans)
    show "?J (t\<lparr>calls := c, log := l\<rparr>)" if "?J t" for t c l using that by simp
    show "recursion (s\<lparr>recursion := True\<rparr>)" by simp
    show "?J (before_loop ev (s\<lparr>recursion := True\<rparr>))" by simp
  qed
  with u obtain cs where "extends (store s) (store s1)" "calls s1 = calls s @ cs" "\<forall>c\<in>set cs. ?Q c"
    by auto
  with s' show ?thesis by auto
qed

section \<open>The type a keyword notification reports\<close>


lemma get_keyword_type_reported:
  assumes "getattr kw ''type'' = Inr (PStr ty)"
  shows "get_keyword_type kw start t =
           (Inr (reported_type ty (running_test t) (setup_or_teardown_type t)),
            t\<lparr>setup_or_teardown_type :=
                 next_pending ty start (running_test t) (setup_or_teardown_type t)\<rparr>)"
  unfolding get_keyword_type_str [OF assms]
  by (simp add: reported_type_def next_pending_def scope_label_def)

lemma keyword_attrs_type:
  assumes ty: "getattr kw ''type'' = Inr (PStr ty)"
    and k: "keyword_attrs dflt kw start t = (Inr d, t1)"
  shows "map_of d ''type'' = Some (PStr (reported_type ty (running_test t) (setup_or_teardown_type t))) \<and>
         setup_or_teardown_type t1 =
           next_pending ty start (running_test t) (setup_or_teardown_type t)"
proof -
  from k obtain attrs h' ty' where
    g: "get_keyword_type kw start (t\<lparr>store := h'\<rparr>) = (Inr ty', t1)"
    and d: "d = dict_set ''type'' (PStr ty') attrs"
    unfolding keyword_attrs_iff by blast
  from g have "ty' = reported_type ty (running_test t) (setup_or_teardown_type t)"
    "t1 = t\<lparr>store := h', setup_or_teardown_type :=
                 next_pending ty start (running_test t) (setup_or_teardown_type t)\<rparr>"
    unfolding get_keyword_type_reported [OF ty] by simp_all
  with d show ?thesis by simp
qed

lemma prep_of_keyword_type:
  assumes ty: "getattr kw ''type'' = Inr (PStr ty)"
    and ev: "ev = (if start then Start_keyword kw else End_keyword kw)"
    and pr: "prep_of ev p t = (Inr (m, args), t1)"
  shows "(\<exists>nm d. args = [Val nm, Attrs d] \<and>
            map_of d ''type'' =
              Some (PStr (reported_type ty (running_test t) (setup_or_teardown_type t)))) \<and>
         setup_or_teardown_type t1 =
           next_pending ty start (running_test t) (setup_or_teardown_type t)"
proof (cases start)
  case True
  with ev pr have "prep_of (Start_keyword kw) p t = (Inr (m, args), t1)" by simp
  then obtain nm d where a: "args = [Val nm, Attrs d]"
    and k: "keyword_attrs start_attrs kw True t = (Inr d, t1)"
    unfolding prep_of_iff by blast
  from keyword_attrs_type [OF ty k] a True show ?thesis by simp
next
  case False
  with ev pr have "prep_of (End_keyword kw) p t = (Inr (m, args), t1)" by simp
  then obtain nm d where a: "args = [Val nm, Attrs d]"
    and k: "keyword_attrs end_attrs kw False t = (Inr d, t1)"
    unfolding prep_of_iff by blast
  from keyword_attrs_type [OF ty k] a False show ?thesis by simp
qed

lemma reported_type_stable:
  "ty \<noteq> ''kw'' \<Longrightarrow> reported_type ty rt x = reported_type ty rt y"
  "ty \<noteq> ''kw'' \<Longrightarrow> next_pending ty start rt x = next_pending ty start rt y"
  "next_pending ''kw'' start rt x = x"
  by (simp_all add: reported_type_def next_pending_def)


lemma payload_type_args [simp]:
  "payload_type (Call r m [Val nm, Attrs d]) = map_of d ''type''"
  by (simp add: payload_type_def)

lemma notify_keyword_type:
  assumes nr: "\<not> recursion s" and ls: "listeners s = Some ps"
    and ok: "event_ok h0 ev" and ex: "extends h0 (store s)"
    and ty: "getattr kw ''type'' = Inr (PStr ty)"
    and ev: "ev = (if start then Start_keyword kw else End_keyword kw)"
    and tame: "\<forall>p\<in>set ps. outcome (target p ev) = Inr ()"
  shows "\<exists>s'. notify (Suc n) ev s = Some (Inr (), s') \<and> \<not> recursion s' \<and>
           listeners s' = Some ps \<and> running_test s' = running_test s \<and>
           extends h0 (store s') \<and>
           setup_or_teardown_type s' =
             (if ps = [] then setup_or_teardown_type s
              else next_pending ty start (running_test s) (setup_or_teardown_type s)) \<and>
           map receiver (new_calls s s') = map name ps \<and>
           (\<forall>c\<in>set (new_calls s s'). payload_type c =
              Some (PStr (reported_type ty (running_test s) (setup_or_teardown_type s))))"
proof -
  let ?R = "reported_type ty (running_test s) (setup_or_teardown_type s)"
  let ?N = "next_pending ty start (running_test s) (setup_or_teardown_type s)"
  let ?K = "\<lambda>x. ty = ''kw'' \<longrightarrow> x = setup_or_teardown_type s"
  let ?K' = "\<lambda>x. x = ?N"
  let ?Q = "\<lambda>args. \<exists>nm d. args = [Val nm, Attrs d] \<and> map_of d ''type'' = Some (PStr ?R)"
  have rt: "running_test (before_loop ev s) = running_test s"
    using ev by (cases start) (simp_all add: before_loop_def)
  have extra: "?K' (setup_or_teardown_type t1) \<and> ?Q args"
    if pr: "prep_of ev p t = (Inr (m, args), t1)"
      and r: "running_test t = running_test (before_loop ev s)"
      and k: "?K (setup_or_teardown_type t)" for p t m args t1
  proof -
    have a: "reported_type ty (running_test t) (setup_or_teardown_type t) = ?R"
    proof (cases "ty = ''kw''")
      case True with k r rt show ?thesis by simp
    next
      case False
      from reported_type_stable(1) [OF False] r rt show ?thesis by simp
    qed
    have b: "next_pending ty start (running_test t) (setup_or_teardown_type t) = ?N"
    proof (cases "ty = ''kw''")
      case True with k r rt show ?thesis by simp
    next
      case False
      from reported_type_stable(2) [OF False] r rt show ?thesis by simp
    qed
    from prep_of_keyword_type [OF ty ev pr] show ?thesis unfolding a b by simp
  qed
  have weaken: "?K x" if "?K' x" for x
    using that by (simp add: reported_type_stable(3))
  have k0: "?K (setup_or_teardown_type s)" by simp
  have "\<exists>s' cs. notify (Suc n) ev s = Some (Inr (), s') \<and> \<not> recursion s' \<and>
           listeners s' = Some ps \<and> running_test s' = running_test (before_loop ev s) \<and>
           extends h0 (store s') \<and>
           (if ps = [] then setup_or_teardown_type s' = setup_or_teardown_type s
            else ?K' (setup_or_teardown_type s')) \<and>
           calls s' = calls s @ cs \<and> map receiver cs = map name ps \<and>
           map called cs = map (\<lambda>p. meth_name (target p ev)) ps \<and>
           (\<forall>c\<in>set cs. ?Q (call_args c)) \<and>
           log s' = log s @ concat (map (\<lambda>p. failure_log p (target p ev)) ps)"
  proof (rule notify_ok [where K = ?K and K' = ?K' and Q = ?Q, OF nr ls ok ex _ _ _ tame])
    show "?K' (setup_or_teardown_type t1) \<and> ?Q args"
      if "prep_of ev p t = (Inr (m, args), t1)"
        "running_test t = running_test (before_loop ev s)"
        "?K (setup_or_teardown_type t)" for p t m args t1
      using extra [OF that] .
    show "?K x" if "?K' x" for x using weaken [OF that] .
    show "?K (setup_or_teardown_type s)" by simp
  qed
  then obtain s' cs where
    n: "notify (Suc n) ev s = Some (Inr (), s')" and r: "\<not> recursion s'"
    and l: "listeners s' = Some ps" and t: "running_test s' = running_test (before_loop ev s)"
    and e: "extends h0 (store s')"
    and p: "if ps = [] then setup_or_teardown_type s' = setup_or_teardown_type s
            else setup_or_teardown_type s' = ?N"
    and c: "calls s' = calls s @ cs" and m: "map receiver cs = map name ps"
    and q: "\<forall>c\<in>set cs. ?Q (call_args c)"
    by (elim exE conjE) (rule that)
  have q': "\<forall>c\<in>set (new_calls s s'). payload_type c = Some (PStr ?R)"
  proof
    fix c assume "c \<in> set (new_calls s s')"
    then have "c \<in> set cs" by (simp add: new_calls_append [OF c])
    with q obtain nm d where "call_args c = [Val nm, Attrs d]" "map_of d ''type'' = Some (PStr ?R)"
      by blast
    then show "payload_type c = Some (PStr ?R)" by (simp add: payload_type_def)
  qed
  have p': "setup_or_teardown_type s' = (if ps = [] then setup_or_teardown_type s else ?N)"
    using p by (cases "ps = []") simp_all
  have m': "map receiver (new_calls s s') = map name ps"
    using m by (simp add: new_calls_append [OF c])
  have t': "running_test s' = running_test s" using t rt by simp
  show ?thesis by (rule exI [where x = s']) (intro conjI n r l t' e p' m' q')
qed

lemma notify_test_event:
  assumes nr: "\<not> recursion s" and ls: "listeners s = Some ps"
    and ok: "event_ok h0 ev" and ex: "extends h0 (store s)"
    and ev: "ev = (if start then Start_test test else End_test test)"
    and tame: "\<forall>p\<in>set ps. outcome (target p ev) = Inr ()"
  shows "\<exists>s'. notify (Suc n) ev s = Some (Inr (), s') \<and> \<not> recursion s' \<and>
           listeners s' = Some ps \<and> running_test s' = start \<and>
           extends h0 (store s') \<and>
           setup_or_teardown_type s' = setup_or_teardown_type s"
proof -
  let ?K = "\<lambda>x. x = setup_or_teardown_type s"
  have rt: "running_test (before_loop ev s) = start"
    using ev by (cases start) (simp_all add: before_loop_def)
  have extra: "?K (setup_or_teardown_type t1) \<and> True"
    if pr: "prep_of ev p t = (Inr (m, args), t1)"
      and k: "?K (setup_or_teardown_type t)" for p t m args t1
  proof (cases start)
    case True
    with ev pr have "prep_of (Start_test test) p t = (Inr (m, args), t1)" by simp
    then obtain h' where "t1 = t\<lparr>store := h'\<rparr>" unfolding prep_of_iff by blast
    with k show ?thesis by simp
  next
    case False
    with ev pr have "prep_of (End_test test) p t = (Inr (m, args), t1)" by simp
    then obtain h' where "t1 = t\<lparr>store := h'\<rparr>" unfolding prep_of_iff by blast
    with k show ?thesis by simp
  qed
  have "\<exists>s' cs. notify (Suc n) ev s = Some (Inr (), s') \<and> \<not> recursion s' \<and>
           listeners s' = Some ps \<and> running_test s' = running_test (before_loop ev s) \<and>
           extends h0 (store s') \<and>
           (if ps = [] then setup_or_teardown_type s' = setup_or_teardown_type s
            else ?K (setup_or_teardown_type s')) \<and>
           calls s' = calls s @ cs \<and> map receiver cs = map name ps \<and>
           map called cs = map (\<lambda>p. meth_name (target p ev)) ps \<and>
           (\<forall>c\<in>set cs. True) \<and>
           log s' = log s @ concat (map (\<lambda>p. failure_log p (target p ev)) ps)"
  proof (rule notify_ok [where K = ?K and K' = ?K and Q = "\<lambda>a. True",
        OF nr ls ok ex _ _ _ tame])
    show "?K (setup_or_teardown_type t1) \<and> True"
      if "prep_of ev p t = (Inr (m, args), t1)"
        "running_test t = running_test (before_loop ev s)"
        "?K (setup_or_teardown_type t)" for p t m args t1
      using extra [OF that(1,3)] .
    show "?K x" if "?K x" for x using that .
    show "?K (setup_or_teardown_type s)" by simp
  qed
  then obtain s' where
    n: "notify (Suc n) ev s = Some (Inr (), s')" and r: "\<not> recursion s'"
    and l: "listeners s' = Some ps" and t: "running_test s' = running_test (before_loop ev s)"
    and e: "extends h0 (store s')"
    and p: "if ps = [] then setup_or_teardown_type s' = setup_or_teardown_type s
            else setup_or_teardown_type s' = setup_or_teardown_type s"
    by (elim exE conjE) (rule that)
  have p': "setup_or_teardown_type s' = setup_or_teardown_type s"
    using p by (cases "ps = []") simp_all
  have t': "running_test s' = start" using t rt by simp
  show ?thesis by (rule exI [where x = s']) (intro conjI n r l t' e p')
qed

lemma title_setup: "title ''setup'' = ''Setup''"
  by code_simp

lemma reported_type_values:
  "reported_type ''setup'' True x = ''Test Setup''"
  "reported_type ''kw'' rt (Some ''Test Setup'') = ''Test Setup''"
  "reported_type ''kw'' rt None = ''Keyword''"
  "next_pending ''setup'' True True x = Some ''Test Setup''"
  "next_pending ''setup'' False rt x = None"
  "next_pending ''kw'' start rt x = x"
  by (simp_all add: reported_type_def next_pending_def scope_label_def title_setup)

lemma map_of_two:
  assumes "map g cs = [a, b]" and "\<forall>c\<in>set cs. f c = v"
  shows "map f cs = [v, v]"
proof -
  from assms(1) obtain x y where "cs = [x, y]" by auto
  with assms(2) show ?thesis by simp
qed

section \<open>The claims\<close>

subsection \<open>C2: the version marker\<close>

text \<open>
  C2, as stated, fails: construction does not succeed exactly when the marker equals
  the integer 2. The marker is converted with \<open>int\<close> first, so a listener that declares
  the string \<open>'2'\<close> is accepted, although that string is not the supported version 2.
\<close>

theorem version_marker_string_two_accepted:
  "ListenerProxy no_loader (Instance chatty_listener) =
     Inr \<lparr>name = ''Chatty'', version = 2, logger = chatty_listener\<rparr> \<and>
   api_version chatty_listener = Some (PStr ''2'') \<and> PStr ''2'' \<noteq> PInt 2"
  by code_simp

text \<open>
  C2, amended: for every listener instance, \<open>_get_version\<close> fails with a \<open>DataError\<close>
  that says the listener does not have the mandatory version attribute when the
  marker is absent; it fails with a \<open>DataError\<close> that says the listener uses an
  unsupported API version when the marker is present and \<open>int\<close> of it is not 2, be
  it that the conversion fails or that it gives another number; and it succeeds,
  with version 2, exactly when \<open>int\<close> of the marker is 2. Constructing the adapter of
  an instance succeeds or fails as \<open>_get_version\<close> does for the instance's type name.
\<close>

theorem version_accepted_iff_int_is_two:
  "get_version nm l =
     (case api_version l of
        None \<Rightarrow> Inl (Exc DataError (missing_version_message nm) [])
      | Some v \<Rightarrow>
          (if py_int v = Inr 2 then Inr 2
           else Inl (Exc DataError (unsupported_version_message nm v) []))) \<and>
   ListenerProxy ev (Instance l) =
     (case get_version (type_name l) l of
        Inl e \<Rightarrow> Inl e
      | Inr v \<Rightarrow> Inr \<lparr>name = type_name l, version = v, logger = l\<rparr>)"
  by (simp add: get_version_cases ListenerProxy_def import_listener_def)

subsection \<open>C5: listeners that cannot be taken into use\<close>

text \<open>
  C5: for every sequence of listener specifications, \<open>_import_listeners\<close> returns the
  adapters of the specifications whose construction succeeds, in the order of the
  input, and logs one error for each specification whose construction fails, in that
  order too, naming the specification: the string itself for a name or path, the
  type name for an instance. So the number of adapters is the number of
  specifications less the number of failures, and the registry made from the
  sequence holds exactly these adapters.
\<close>

theorem failed_listeners_dropped_and_logged:
  "import_listeners ev sps lg =
     (Inr (map (\<lambda>sp. projr (ListenerProxy ev sp)) (filter (\<lambda>sp. \<not> isl (ListenerProxy ev sp)) sps)),
      lg @ map (\<lambda>sp. (ERROR, taking_into_use_failed sp (exc_message (projl (ListenerProxy ev sp)))))
             (filter (\<lambda>sp. isl (ListenerProxy ev sp)) sps)) \<and>
   length (filter (\<lambda>sp. \<not> isl (ListenerProxy ev sp)) sps) =
     length sps - length (filter (\<lambda>sp. isl (ListenerProxy ev sp)) sps) \<and>
   listeners (snd (Listeners ev (Some sps) h lg)) =
     Some (map (\<lambda>sp. projr (ListenerProxy ev sp)) (filter (\<lambda>sp. \<not> isl (ListenerProxy ev sp)) sps)) \<and>
   taking_into_use_failed (ByName s) msg =
     ''Taking listener '' @ quoted s @ '' into use failed: '' @ msg \<and>
   taking_into_use_failed (Instance l) msg =
     ''Taking listener '' @ quoted (type_name l) @ '' into use failed: '' @ msg"
proof -
  have "length (filter (\<lambda>sp. \<not> isl (ListenerProxy ev sp)) sps) +
        length (filter (\<lambda>sp. isl (ListenerProxy ev sp)) sps) = length sps"
    using sum_length_filter_compl [of "\<lambda>sp. isl (ListenerProxy ev sp)" sps] by simp
  then show ?thesis
    by (simp add: import_listeners_eq Listeners_def init_def new_instance_def
        taking_into_use_failed_def spec_display_name_def)
qed

subsection \<open>C9: a registry without listeners\<close>

text \<open>
  C9 holds for an empty sequence and fails for an absent one. \<open>__init__\<close> assigns
  \<open>_listeners\<close> only when the argument is not \<open>None\<close>, and nothing else ever assigns
  it: on a registry made from \<open>None\<close> the emptiness check raises \<open>AttributeError\<close>, and
  so does every notification, which leaves the recursion flag set. A registry made
  from the empty sequence is inert: the check is false and every notification
  returns without an error, a call or a log entry.
\<close>

theorem registry_from_None_raises:
  "fst (Listeners ev None h lg) = Inr () \<and>
   listeners (snd (Listeners ev None h lg)) = None \<and>
   nonzero (snd (Listeners ev None h lg)) = Inl (attribute_error ''_listeners'') \<and>
   notify (Suc n) e (snd (Listeners ev None h lg)) =
     Some (Inl (attribute_error ''_listeners''),
           (before_loop e (snd (Listeners ev None h lg)))\<lparr>recursion := True\<rparr>) \<and>
   fst (Listeners ev (Some []) h lg) = Inr () \<and>
   nonzero (snd (Listeners ev (Some []) h lg)) = Inr False \<and>
   notify (Suc n) e (snd (Listeners ev (Some []) h lg)) =
     Some (Inr (), before_loop e (snd (Listeners ev (Some []) h lg))) \<and>
   calls (before_loop e (snd (Listeners ev (Some []) h lg))) = [] \<and>
   log (before_loop e (snd (Listeners ev (Some []) h lg))) = lg"
proof -
  let ?s = "snd (Listeners ev None h lg)"
  let ?t = "snd (Listeners ev (Some []) h lg)"
  have s: "listeners ?s = None" "\<not> recursion ?s"
    by (simp_all add: Listeners_def init_def new_instance_def)
  have t: "listeners ?t = Some []" "\<not> recursion ?t" "calls ?t = []" "log ?t = lg"
    by (simp_all add: Listeners_def init_def new_instance_def)
  have "unwrapped (notify n) e (?s\<lparr>recursion := True\<rparr>) =
          Some (Inl (attribute_error ''_listeners''), before_loop e (?s\<lparr>recursion := True\<rparr>))"
    using s by (simp add: unwrapped_shape each_listener_def)
  moreover have "before_loop e (?s\<lparr>recursion := True\<rparr>) = (before_loop e ?s)\<lparr>recursion := True\<rparr>"
    by (simp add: before_loop_def split: event.splits)
  ultimately have ns: "notify (Suc n) e ?s =
      Some (Inl (attribute_error ''_listeners''), (before_loop e ?s)\<lparr>recursion := True\<rparr>)"
    using s by (simp add: avoid_recursion_def)
  have "unwrapped (notify n) e (?t\<lparr>recursion := True\<rparr>) =
          Some (Inr (), before_loop e (?t\<lparr>recursion := True\<rparr>))"
    using t by (simp add: unwrapped_shape each_listener_def)
  moreover have "(before_loop e (?t\<lparr>recursion := True\<rparr>))\<lparr>recursion := False\<rparr> = before_loop e ?t"
    using t(2) by (simp add: before_loop_def split: event.splits)
  ultimately have nt: "notify (Suc n) e ?t = Some (Inr (), before_loop e ?t)"
    using t by (simp add: avoid_recursion_def)
  have "fst (Listeners ev None h lg) = Inr ()" "fst (Listeners ev (Some []) h lg) = Inr ()"
    by (simp_all add: Listeners_def init_def new_instance_def)
  then show ?thesis
    using s t ns nt by (simp add: nonzero_def)
qed

subsection \<open>C4: the recursion guard\<close>

text \<open>
  C4, as stated, fails in its second half: the flag is not false on exit of every
  outermost call. The wrapper resets it after the method and has no handler, so an
  exception that leaves the method leaves the flag set, and the next top-level
  notification is dropped like a nested one. Here \<open>output_file\<close> with a file type
  the adapters have no method for raises \<open>AttributeError\<close>, and \<open>close\<close> after it
  reaches no adapter.
\<close>

theorem flag_left_set_by_exception:
  "\<not> recursion two_listeners \<and>
   notify (Suc 0) (Output_file ''Bogus'' (PStr ''out.xml'')) two_listeners =
     Some (Inl (attribute_error ''bogus_file''), two_listeners\<lparr>recursion := True\<rparr>) \<and>
   recursion (two_listeners\<lparr>recursion := True\<rparr>) \<and>
   notify (Suc 0) Close (two_listeners\<lparr>recursion := True\<rparr>) =
     Some (Inr (), two_listeners\<lparr>recursion := True\<rparr>) \<and>
   calls (two_listeners\<lparr>recursion := True\<rparr>) = []"
proof -
  have a: "notify (Suc 0) (Output_file ''Bogus'' (PStr ''out.xml'')) two_listeners =
     Some (Inl (attribute_error ''bogus_file''), two_listeners\<lparr>recursion := True\<rparr>)"
    by code_simp
  have b: "notify (Suc 0) Close (two_listeners\<lparr>recursion := True\<rparr>) =
     Some (Inr (), two_listeners\<lparr>recursion := True\<rparr>)"
    by (rule notify_flag_set) simp
  have c: "recursion (two_listeners\<lparr>recursion := True\<rparr>)" by simp
  have d: "calls (two_listeners\<lparr>recursion := True\<rparr>) = []"
    by (simp add: two_listeners_fields)
  show ?thesis by (intro conjI two_listeners_fields(1) a b c d)
qed

text \<open>
  C4, amended: a public notification entered while the recursion flag is set, which
  is the case from the entry of an outermost notification to its exit, returns at
  once: no adapter is called, no error is raised and nothing changes. So do all the
  notifications a listener's routine sends while it runs. An outermost notification
  on a registry with adapters \<open>ps\<close> returns, whatever the routines call back; every
  adapter it reaches is called once, in registration order, and nothing else is; when
  it returns normally it has reached every adapter and the flag is false at its exit,
  so that delivery resumes with the next top-level notification; when an exception
  leaves the method the flag is true at its exit.
\<close>

theorem nested_notification_dropped:
  "(recursion s \<longrightarrow>
      notify n ev s = Some (Inr (), s) \<and> reenter (notify n) evs s = Some (Inr (), s)) \<and>
   (\<not> recursion s \<and> listeners s = Some ps \<longrightarrow>
      (\<exists>r s' cs. notify (Suc n) ev s = Some (r, s') \<and> recursion s' = isl r \<and>
         calls s' = calls s @ cs \<and> map receiver cs = map name (take (length cs) ps) \<and>
         (r = Inr () \<longrightarrow> length cs = length ps)))"
  using notify_flag_set [of s n ev] reenter_guarded [OF guarded_notify, of s n evs]
    notify_top_once [of s ps n ev]
  by blast

theorem nested_notification_dropped_witness:
  "recursion (two_listeners\<lparr>recursion := True\<rparr>) \<and>
   notify 1 (Log_message a_message) (two_listeners\<lparr>recursion := True\<rparr>) =
     Some (Inr (), two_listeners\<lparr>recursion := True\<rparr>) \<and>
   reenter (notify 1) [Log_message a_message, Close] (two_listeners\<lparr>recursion := True\<rparr>) =
     Some (Inr (), two_listeners\<lparr>recursion := True\<rparr>) \<and>
   \<not> recursion two_listeners \<and>
   listeners two_listeners =
     Some [\<lparr>name = ''Raising'', version = 2, logger = raising_listener\<rparr>,
           \<lparr>name = ''Chatty'', version = 2, logger = chatty_listener\<rparr>] \<and>
   notify (Suc 1) (Log_message a_message) two_listeners =
     Some (Inr (),
       two_listeners\<lparr>calls :=
         [Call ''Raising'' ''<lambda>''
            [Attrs [(''timestamp'', PStr ''20150101 12:00:00.000''), (''message'', PStr ''hello''),
                    (''level'', PStr ''INFO''), (''html'', PStr ''no'')]],
          Call ''Chatty'' ''log_message''
            [Attrs [(''timestamp'', PStr ''20150101 12:00:00.000''), (''message'', PStr ''hello''),
                    (''level'', PStr ''INFO''), (''html'', PStr ''no'')]]]\<rparr>) \<and>
   (\<exists>r s' cs. notify (Suc 1) (Log_message a_message) two_listeners = Some (r, s') \<and>
      recursion s' = isl r \<and> calls s' = calls two_listeners @ cs \<and>
      map receiver cs =
        map name (take (length cs)
          [\<lparr>name = ''Raising'', version = 2, logger = raising_listener\<rparr>,
           \<lparr>name = ''Chatty'', version = 2, logger = chatty_listener\<rparr>]) \<and>
      (r = Inr () \<longrightarrow>
         length cs =
           length [\<lparr>name = ''Raising'', version = 2, logger = raising_listener\<rparr>,
                   \<lparr>name = ''Chatty'', version = 2, logger = chatty_listener\<rparr>]))"
proof -
  have a: "recursion (two_listeners\<lparr>recursion := True\<rparr>)" by simp
  have c: "notify (Suc 1) (Log_message a_message) two_listeners =
     Some (Inr (),
       two_listeners\<lparr>calls :=
         [Call ''Raising'' ''<lambda>''
            [Attrs [(''timestamp'', PStr ''20150101 12:00:00.000''), (''message'', PStr ''hello''),
                    (''level'', PStr ''INFO''), (''html'', PStr ''no'')]],
          Call ''Chatty'' ''log_message''
            [Attrs [(''timestamp'', PStr ''20150101 12:00:00.000''), (''message'', PStr ''hello''),
                    (''level'', PStr ''INFO''), (''html'', PStr ''no'')]]]\<rparr>)"
    by code_simp
  note t1 = nested_notification_dropped
    [of "two_listeners\<lparr>recursion := True\<rparr>" 1 "Log_message a_message"
        "[Log_message a_message, Close]"]
  note t2 = nested_notification_dropped
    [of two_listeners 1 "Log_message a_message" "[]"
        "[\<lparr>name = ''Raising'', version = 2, logger = raising_listener\<rparr>,
          \<lparr>name = ''Chatty'', version = 2, logger = chatty_listener\<rparr>]"]
  from t1 a have d: "notify 1 (Log_message a_message) (two_listeners\<lparr>recursion := True\<rparr>) =
     Some (Inr (), two_listeners\<lparr>recursion := True\<rparr>)"
    "reenter (notify 1) [Log_message a_message, Close] (two_listeners\<lparr>recursion := True\<rparr>) =
     Some (Inr (), two_listeners\<lparr>recursion := True\<rparr>)"
    by blast+
  from t2 two_listeners_fields(1,2)
  have e: "\<exists>r s' cs. notify (Suc 1) (Log_message a_message) two_listeners = Some (r, s') \<and>
      recursion s' = isl r \<and> calls s' = calls two_listeners @ cs \<and>
      map receiver cs =
        map name (take (length cs)
          [\<lparr>name = ''Raising'', version = 2, logger = raising_listener\<rparr>,
           \<lparr>name = ''Chatty'', version = 2, logger = chatty_listener\<rparr>]) \<and>
      (r = Inr () \<longrightarrow>
         length cs =
           length [\<lparr>name = ''Raising'', version = 2, logger = raising_listener\<rparr>,
                   \<lparr>name = ''Chatty'', version = 2, logger = chatty_listener\<rparr>])"
    by blast
  show ?thesis by (intro conjI a d two_listeners_fields(1,2) c e)
qed

subsection \<open>C10: an exception that leaves a wrapped method\<close>

text \<open>
  C10: when an exception leaves the body of a wrapped public method, entered with
  the flag clear, the flag is set afterwards, and it stays set: every later
  notification, and every run of later notifications, returns at once and leaves the
  state as it is, so no adapter is called again.
\<close>

theorem escaped_exception_disables_registry:
  assumes "\<not> recursion s" and "notify n ev s = Some (Inl x, s')"
  shows "recursion s' \<and> notify m ev' s' = Some (Inr (), s') \<and>
         notify_all m evs s' = Some (Inr (), s')"
proof -
  have "recursion s'"
  proof (cases n)
    case 0
    with assms show ?thesis by (simp add: avoid_recursion_def)
  next
    case (Suc k)
    from notify_top [OF assms(1), of k ev] assms(2) Suc show ?thesis by auto
  qed
  then show ?thesis by (simp add: notify_flag_set notify_all_flag_set)
qed

theorem escaped_exception_disables_registry_witness:
  "\<not> recursion two_listeners \<and>
   notify 1 (Imported ''Bogus'' (PStr ''lib'') PNone) two_listeners =
     Some (Inl (attribute_error ''bogus_import''), two_listeners\<lparr>recursion := True\<rparr>) \<and>
   recursion (two_listeners\<lparr>recursion := True\<rparr>) \<and>
   notify 1 Close (two_listeners\<lparr>recursion := True\<rparr>) =
     Some (Inr (), two_listeners\<lparr>recursion := True\<rparr>) \<and>
   notify_all 1 [Start_test a_test, Close] (two_listeners\<lparr>recursion := True\<rparr>) =
     Some (Inr (), two_listeners\<lparr>recursion := True\<rparr>)"
proof -
  have a: "\<not> recursion two_listeners" by (simp add: two_listeners_def)
  have b: "notify 1 (Imported ''Bogus'' (PStr ''lib'') PNone) two_listeners =
     Some (Inl (attribute_error ''bogus_import''), two_listeners\<lparr>recursion := True\<rparr>)"
    by code_simp
  from escaped_exception_disables_registry [OF a b, of 1 Close "[Start_test a_test, Close]"] a b
  show ?thesis by blast
qed

subsection \<open>C1: a listener that raises\<close>




subsection \<open>C7: the payload of \<open>end_test\<close>\<close>

text \<open>
  C7, as stated, fails: the key set of an \<open>end_test\<close> payload is not the ten keys
  the claim lists. \<open>_end_attrs\<close> is \<open>_start_attrs\<close> with four more names, so the
  payload has the key \<open>starttime\<close> as well.
\<close>

theorem end_test_payload_has_starttime:
  "notify (Suc 0) (End_test a_test) two_listeners = Some (Inr (), after_end_test) \<and>
   calls after_end_test =
     [Call ''Raising'' ''<lambda>'' [Val (PStr ''T1''), Attrs (end_payload 3)],
      Call ''Chatty'' ''<lambda>'' [Val (PStr ''T1''), Attrs (end_payload 4)]] \<and>
   map fst (end_payload 3) =
     [''id'', ''doc'', ''starttime'', ''longname'', ''endtime'', ''elapsedtime'', ''status'',
      ''message'', ''tags'', ''critical'', ''template''] \<and>
   fst ` set (end_payload 3) \<noteq>
     {''id'', ''doc'', ''endtime'', ''elapsedtime'', ''status'', ''message'', ''longname'',
      ''tags'', ''critical'', ''template''}"
proof -
  have "''starttime'' \<in> fst ` set (end_payload 3)" by (simp add: end_payload_def)
  moreover have "''starttime'' \<notin> {''id'', ''doc'', ''endtime'', ''elapsedtime'', ''status'',
      ''message'', ''longname'', ''tags'', ''critical'', ''template''}" by simp
  ultimately have d: "fst ` set (end_payload 3) \<noteq>
     {''id'', ''doc'', ''endtime'', ''elapsedtime'', ''status'', ''message'', ''longname'',
      ''tags'', ''critical'', ''template''}" by metis
  have b: "calls after_end_test =
     [Call ''Raising'' ''<lambda>'' [Val (PStr ''T1''), Attrs (end_payload 3)],
      Call ''Chatty'' ''<lambda>'' [Val (PStr ''T1''), Attrs (end_payload 4)]]"
    by (simp add: after_end_test_def)
  have c: "map fst (end_payload 3) =
     [''id'', ''doc'', ''starttime'', ''longname'', ''endtime'', ''elapsedtime'', ''status'',
      ''message'', ''tags'', ''critical'', ''template'']"
    by (simp add: end_payload_def)
  show ?thesis by (intro conjI end_test_of_a_test b c d)
qed

text \<open>
  C7, amended: for every \<open>end_test\<close> notification, the key set of every payload it
  delivers is exactly \<open>id\<close>, \<open>doc\<close>, \<open>starttime\<close>, \<open>longname\<close>, \<open>endtime\<close>,
  \<open>elapsedtime\<close>, \<open>status\<close>, \<open>message\<close>, \<open>tags\<close>, \<open>critical\<close>, \<open>template\<close>, the
  payload being the second argument of the call after the test's name; and when the
  registry is not inside a notification, the test has the attributes that are read
  and no routine raises an exception that \<open>get_error_details\<close> raises again, the
  notification returns normally and delivers to every adapter, in order.
\<close>

theorem end_test_payload_keys:
  assumes "notify (Suc n) (End_test test) s = Some (r, s')"
  shows "(\<forall>c\<in>set (new_calls s s'). \<exists>nm d. call_args c = [Val nm, Attrs d] \<and>
            fst ` set d =
              {''id'', ''doc'', ''starttime'', ''longname'', ''endtime'', ''elapsedtime'',
               ''status'', ''message'', ''tags'', ''critical'', ''template''}) \<and>
         (\<not> recursion s \<and> listeners s = Some ps \<and> event_ok (store s) (End_test test) \<and>
          (\<forall>p\<in>set ps. outcome (target p (End_test test)) = Inr ()) \<longrightarrow>
            r = Inr () \<and> map receiver (new_calls s s') = map name ps)"
proof -
  let ?K = "{''template'', ''critical'', ''id'', ''doc'', ''starttime'', ''longname'', ''endtime'',
            ''elapsedtime'', ''status'', ''message'', ''tags''}"
  let ?Q = "\<lambda>c. \<exists>nm d. call_args c = [Val nm, Attrs d] \<and> fst ` set d = ?K"
  have "\<exists>cs. calls s' = calls s @ cs \<and> (\<forall>c\<in>set cs. ?Q c)"
  proof (rule notify_calls [where J = "\<lambda>t. True" and Q = ?Q, OF _ _ _ _ assms])
    show "?Q (Call (name p) (meth_name m) args) \<and> True"
      if "prep_of (End_test test) p t = (Inr (m, args), t1)" for p t m args t1
      using that by (auto simp: prep_of_iff dest: end_test_attrs_keys)
  qed simp_all
  then obtain cs where cs: "calls s' = calls s @ cs" "\<forall>c\<in>set cs. ?Q c" by blast
  have eq: "?K = {''id'', ''doc'', ''starttime'', ''longname'', ''endtime'', ''elapsedtime'',
               ''status'', ''message'', ''tags'', ''critical'', ''template''}"
    by (simp add: insert_commute)
  have 1: "\<forall>c\<in>set (new_calls s s'). \<exists>nm d. call_args c = [Val nm, Attrs d] \<and>
            fst ` set d =
              {''id'', ''doc'', ''starttime'', ''longname'', ''endtime'', ''elapsedtime'',
               ''status'', ''message'', ''tags'', ''critical'', ''template''}"
    using cs unfolding new_calls_append [OF cs(1)] eq [symmetric] by blast
  have 2: "r = Inr () \<and> map receiver (new_calls s s') = map name ps"
    if h: "\<not> recursion s" "listeners s = Some ps" "event_ok (store s) (End_test test)"
      "\<forall>p\<in>set ps. outcome (target p (End_test test)) = Inr ()"
  proof -
    from notify_delivers [OF h, of n] assms obtain cs' where
      "r = Inr ()" "calls s' = calls s @ cs'" "map receiver cs' = map name ps"
      by auto
    then show ?thesis by (simp add: new_calls_append)
  qed
  from 1 2 show ?thesis by blast
qed


theorem end_test_payload_keys_witness:
  "notify (Suc 0) (End_test a_test) two_listeners = Some (Inr (), after_end_test) \<and>
   new_calls two_listeners after_end_test =
     [Call ''Raising'' ''<lambda>'' [Val (PStr ''T1''), Attrs (end_payload 3)],
      Call ''Chatty'' ''<lambda>'' [Val (PStr ''T1''), Attrs (end_payload 4)]] \<and>
   fst ` set (end_payload 3) =
     {''id'', ''doc'', ''starttime'', ''longname'', ''endtime'', ''elapsedtime'',
      ''status'', ''message'', ''tags'', ''critical'', ''template''} \<and>
   \<not> recursion two_listeners \<and>
   listeners two_listeners =
     Some [\<lparr>name = ''Raising'', version = 2, logger = raising_listener\<rparr>,
           \<lparr>name = ''Chatty'', version = 2, logger = chatty_listener\<rparr>] \<and>
   event_ok (store two_listeners) (End_test a_test) \<and>
   outcome (target \<lparr>name = ''Raising'', version = 2, logger = raising_listener\<rparr> (End_test a_test))
     = Inr () \<and>
   outcome (target \<lparr>name = ''Chatty'', version = 2, logger = chatty_listener\<rparr> (End_test a_test))
     = Inr () \<and>
   map receiver (new_calls two_listeners after_end_test) = [''Raising'', ''Chatty'']"
proof -
  have n: "new_calls two_listeners after_end_test =
     [Call ''Raising'' ''<lambda>'' [Val (PStr ''T1''), Attrs (end_payload 3)],
      Call ''Chatty'' ''<lambda>'' [Val (PStr ''T1''), Attrs (end_payload 4)]]"
    by (simp add: new_calls_def after_end_test_def two_listeners_def)
  have e: "event_ok (store two_listeners) (End_test a_test)"
    by (simp add: event_ok_def a_test_def getattr_def start_attrs_def end_attrs_def)
  note t = end_test_payload_keys [OF end_test_of_a_test,
      of "[\<lparr>name = ''Raising'', version = 2, logger = raising_listener\<rparr>,
           \<lparr>name = ''Chatty'', version = 2, logger = chatty_listener\<rparr>]"]
  from t have "\<exists>nm d. call_args (Call ''Raising'' ''<lambda>'' [Val (PStr ''T1''), Attrs (end_payload 3)])
      = [Val nm, Attrs d] \<and>
      fst ` set d = {''id'', ''doc'', ''starttime'', ''longname'', ''endtime'', ''elapsedtime'',
        ''status'', ''message'', ''tags'', ''critical'', ''template''}"
    unfolding n by simp
  then have k: "fst ` set (end_payload 3) =
     {''id'', ''doc'', ''starttime'', ''longname'', ''endtime'', ''elapsedtime'',
      ''status'', ''message'', ''tags'', ''critical'', ''template''}"
    by simp
  have o: "\<forall>p\<in>set [\<lparr>name = ''Raising'', version = 2, logger = raising_listener\<rparr>,
           \<lparr>name = ''Chatty'', version = 2, logger = chatty_listener\<rparr>].
            outcome (target p (End_test a_test)) = Inr ()"
    by (simp add: outcome_def target_def event_method_def raising_listener_def
        chatty_listener_def no_method_def)
  from t two_listeners_fields(1,2) e o
  have r: "map receiver (new_calls two_listeners after_end_test) = [''Raising'', ''Chatty'']"
    by simp
  from o have o': "outcome (target \<lparr>name = ''Raising'', version = 2, logger = raising_listener\<rparr>
        (End_test a_test)) = Inr ()"
    "outcome (target \<lparr>name = ''Chatty'', version = 2, logger = chatty_listener\<rparr>
        (End_test a_test)) = Inr ()"
    by simp_all
  show ?thesis
    by (intro conjI end_test_of_a_test n k two_listeners_fields(1,2) e o' r)
qed

subsection \<open>C8: the payloads of the keyword notifications\<close>

text \<open>
  C8: for every \<open>start_keyword\<close> and every \<open>end_keyword\<close> notification, every payload
  it delivers, the second argument of the call after the keyword's name, has exactly
  the keys \<open>start_keyword_keys\<close>, respectively \<open>end_keyword_keys\<close>: \<open>id\<close>,
  \<open>longname\<close> and \<open>message\<close> are in neither set, \<open>args\<close>, \<open>assign\<close>, \<open>kwname\<close>,
  \<open>libname\<close> and the derived \<open>type\<close> are in both. When the registry is not inside a
  notification, the keyword has the attributes that are read and no routine raises an
  exception that \<open>get_error_details\<close> raises again, the notification returns normally
  and delivers to every adapter, in order.
\<close>

theorem keyword_payload_keys:
  assumes "notify (Suc n) ev s = Some (r, s')"
    and "ev = Start_keyword kw \<or> ev = End_keyword kw"
  shows "(\<forall>c\<in>set (new_calls s s'). \<exists>nm d. call_args c = [Val nm, Attrs d] \<and>
            fst ` set d =
              (if ev = Start_keyword kw then start_keyword_keys else end_keyword_keys)) \<and>
         {''id'', ''longname'', ''message''} \<inter> (start_keyword_keys \<union> end_keyword_keys) = {} \<and>
         {''args'', ''assign'', ''kwname'', ''libname'', ''type''}
           \<subseteq> start_keyword_keys \<inter> end_keyword_keys \<and>
         (\<not> recursion s \<and> listeners s = Some ps \<and> event_ok (store s) ev \<and>
          (\<forall>p\<in>set ps. outcome (target p ev) = Inr ()) \<longrightarrow>
            r = Inr () \<and> map receiver (new_calls s s') = map name ps)"
proof -
  have 1: "\<forall>c\<in>set (new_calls s s'). \<exists>nm d. call_args c = [Val nm, Attrs d] \<and>
            fst ` set d =
              (if ev = Start_keyword kw then start_keyword_keys else end_keyword_keys)"
  proof (cases "ev = Start_keyword kw")
    case True
    from start_keyword_calls [OF assms(1) [unfolded True]] obtain cs where
      cs: "calls s' = calls s @ cs"
      "\<forall>c\<in>set cs. \<exists>nm d. call_args c = [Val nm, Attrs d] \<and> fst ` set d = start_keyword_keys"
      by blast
    show ?thesis unfolding if_P [OF True] new_calls_append [OF cs(1)] by (rule cs(2))
  next
    case False
    with assms(2) have e: "ev = End_keyword kw" by simp
    from end_keyword_calls [OF assms(1) [unfolded e]] obtain cs where
      cs: "calls s' = calls s @ cs"
      "\<forall>c\<in>set cs. \<exists>nm d. call_args c = [Val nm, Attrs d] \<and> fst ` set d = end_keyword_keys"
      by blast
    show ?thesis unfolding if_not_P [OF False] new_calls_append [OF cs(1)] by (rule cs(2))
  qed
  have 2: "r = Inr () \<and> map receiver (new_calls s s') = map name ps"
    if h: "\<not> recursion s" "listeners s = Some ps" "event_ok (store s) ev"
      "\<forall>p\<in>set ps. outcome (target p ev) = Inr ()"
  proof -
    from notify_delivers [OF h, of n] assms(1) obtain cs' where
      "r = Inr ()" "calls s' = calls s @ cs'" "map receiver cs' = map name ps"
      by auto
    then show ?thesis by (simp add: new_calls_append)
  qed
  from 2 have 3: "\<not> recursion s \<and> listeners s = Some ps \<and> event_ok (store s) ev \<and>
          (\<forall>p\<in>set ps. outcome (target p ev) = Inr ()) \<longrightarrow>
            r = Inr () \<and> map receiver (new_calls s s') = map name ps"
    by blast
  show ?thesis by (intro conjI 1 keyword_key_facts 3)
qed

theorem keyword_payload_keys_witness:
  "notify (Suc 0) (Start_keyword (a_keyword ''Open'' ''setup'')) two_listeners =
     Some (Inr (), after_start_keyword) \<and>
   new_calls two_listeners after_start_keyword =
     [Call ''Raising'' ''<lambda>''
        [Val (PStr ''Open''), Attrs (start_kw_payload 3 4 ''Open'' ''Suite Setup'')],
      Call ''Chatty'' ''<lambda>''
        [Val (PStr ''Open''), Attrs (start_kw_payload 5 6 ''Open'' ''Suite Setup'')]] \<and>
   fst ` set (start_kw_payload 3 4 ''Open'' ''Suite Setup'') = start_keyword_keys \<and>
   \<not> recursion two_listeners \<and>
   listeners two_listeners =
     Some [\<lparr>name = ''Raising'', version = 2, logger = raising_listener\<rparr>,
           \<lparr>name = ''Chatty'', version = 2, logger = chatty_listener\<rparr>] \<and>
   event_ok (store two_listeners) (Start_keyword (a_keyword ''Open'' ''setup'')) \<and>
   outcome (target \<lparr>name = ''Raising'', version = 2, logger = raising_listener\<rparr>
     (Start_keyword (a_keyword ''Open'' ''setup''))) = Inr () \<and>
   outcome (target \<lparr>name = ''Chatty'', version = 2, logger = chatty_listener\<rparr>
     (Start_keyword (a_keyword ''Open'' ''setup''))) = Inr () \<and>
   map receiver (new_calls two_listeners after_start_keyword) = [''Raising'', ''Chatty'']"
proof -
  let ?kw = "a_keyword ''Open'' ''setup''"
  let ?ps = "[\<lparr>name = ''Raising'', version = 2, logger = raising_listener\<rparr>,
           \<lparr>name = ''Chatty'', version = 2, logger = chatty_listener\<rparr>]"
  have n: "new_calls two_listeners after_start_keyword =
     [Call ''Raising'' ''<lambda>''
        [Val (PStr ''Open''), Attrs (start_kw_payload 3 4 ''Open'' ''Suite Setup'')],
      Call ''Chatty'' ''<lambda>''
        [Val (PStr ''Open''), Attrs (start_kw_payload 5 6 ''Open'' ''Suite Setup'')]]"
    by (simp add: new_calls_def after_start_keyword_def two_listeners_def)
  have e: "event_ok (store two_listeners) (Start_keyword ?kw)"
    by (simp add: event_ok_def a_keyword_def getattr_def kw_attr_names has_str_type_def)
  have o: "outcome (target \<lparr>name = ''Raising'', version = 2, logger = raising_listener\<rparr>
     (Start_keyword ?kw)) = Inr ()"
    "outcome (target \<lparr>name = ''Chatty'', version = 2, logger = chatty_listener\<rparr>
     (Start_keyword ?kw)) = Inr ()"
    by (simp_all add: outcome_def target_def event_method_def raising_listener_def
        chatty_listener_def no_method_def)
  note t = keyword_payload_keys [OF start_keyword_of_a_setup, of ?kw ?ps]
  have "Start_keyword ?kw = Start_keyword ?kw \<or> Start_keyword ?kw = End_keyword ?kw" by simp
  note t' = t [OF this]
  from t' have b: "\<forall>c\<in>set (new_calls two_listeners after_start_keyword).
      \<exists>nm d. call_args c = [Val nm, Attrs d] \<and> fst ` set d = start_keyword_keys"
    by simp
  have "Call ''Raising'' ''<lambda>''
        [Val (PStr ''Open''), Attrs (start_kw_payload 3 4 ''Open'' ''Suite Setup'')]
        \<in> set (new_calls two_listeners after_start_keyword)"
    unfolding n by simp
  from b [rule_format, OF this]
  have k: "fst ` set (start_kw_payload 3 4 ''Open'' ''Suite Setup'') = start_keyword_keys"
    by simp
  from t' two_listeners_fields(1,2) e o
  have r: "map receiver (new_calls two_listeners after_start_keyword) = [''Raising'', ''Chatty'']"
    by simp
  show ?thesis
    by (intro conjI start_keyword_of_a_setup n k two_listeners_fields(1,2) e o r)
qed

subsection \<open>C6: payloads and the collections of the domain objects\<close>




subsection \<open>C3: the type reported for a keyword inside a setup\<close>


text \<open>
  C3: take a registry that is not inside a notification, and a test, a setup keyword
  (declared type \<open>setup\<close>), a keyword nested in it and a later keyword at top level
  (both of declared type \<open>kw\<close>) that have the attributes the notifications read, with
  no listener routine raising an exception that \<open>get_error_details\<close> raises again.
  Then the seven notifications \<open>start_test\<close>, \<open>start_keyword\<close> of the setup,
  \<open>start_keyword\<close> and \<open>end_keyword\<close> of the nested keyword, \<open>end_keyword\<close> of the
  setup, \<open>end_test\<close> and \<open>start_keyword\<close> of the top-level keyword all return
  normally; every listener receives both notifications of the nested keyword with the
  payload entry \<open>type\<close> equal to \<open>Test Setup\<close>, as it does for the setup keyword
  itself; after \<open>end_keyword\<close> of the setup the pending type is \<open>None\<close> (with no
  listener at all nothing is evaluated and the pending type is what it was); and every
  listener receives the top-level keyword with \<open>type\<close> equal to \<open>Keyword\<close>.
\<close>

theorem setup_type_reaches_nested_keyword:
  assumes nr: "\<not> recursion s" and ls: "listeners s = Some ps"
    and evs: "\<forall>ev\<in>set (setup_run test ksetup knested ktop).
            event_ok (store s) ev \<and> (\<forall>p\<in>set ps. outcome (target p ev) = Inr ())"
    and t1: "getattr ksetup ''type'' = Inr (PStr ''setup'')"
    and t2: "getattr knested ''type'' = Inr (PStr ''kw'')"
    and t3: "getattr ktop ''type'' = Inr (PStr ''kw'')"
  shows "\<exists>s1 s2 s3 s4 s5 s6 s7.
           notify (Suc n) (Start_test test) s = Some (Inr (), s1) \<and>
           notify (Suc n) (Start_keyword ksetup) s1 = Some (Inr (), s2) \<and>
           notify (Suc n) (Start_keyword knested) s2 = Some (Inr (), s3) \<and>
           notify (Suc n) (End_keyword knested) s3 = Some (Inr (), s4) \<and>
           notify (Suc n) (End_keyword ksetup) s4 = Some (Inr (), s5) \<and>
           notify (Suc n) (End_test test) s5 = Some (Inr (), s6) \<and>
           notify (Suc n) (Start_keyword ktop) s6 = Some (Inr (), s7) \<and>
           map receiver (new_calls s2 s3) = map name ps \<and>
           map receiver (new_calls s3 s4) = map name ps \<and>
           (\<forall>c\<in>set (new_calls s2 s3 @ new_calls s3 s4).
              payload_type c = Some (PStr ''Test Setup'')) \<and>
           (\<forall>c\<in>set (new_calls s1 s2 @ new_calls s4 s5).
              payload_type c = Some (PStr ''Test Setup'')) \<and>
           setup_or_teardown_type s5 = (if ps = [] then setup_or_teardown_type s else None) \<and>
           map receiver (new_calls s6 s7) = map name ps \<and>
           (\<forall>c\<in>set (new_calls s6 s7). payload_type c = Some (PStr ''Keyword''))"
proof -
  have ok: "event_ok (store s) ev" and tame: "\<forall>p\<in>set ps. outcome (target p ev) = Inr ()"
    if "ev \<in> set (setup_run test ksetup knested ktop)" for ev
    using evs that by blast+
  have m: "Start_test test \<in> set (setup_run test ksetup knested ktop)"
    "Start_keyword ksetup \<in> set (setup_run test ksetup knested ktop)"
    "Start_keyword knested \<in> set (setup_run test ksetup knested ktop)"
    "End_keyword knested \<in> set (setup_run test ksetup knested ktop)"
    "End_keyword ksetup \<in> set (setup_run test ksetup knested ktop)"
    "End_test test \<in> set (setup_run test ksetup knested ktop)"
    "Start_keyword ktop \<in> set (setup_run test ksetup knested ktop)"
    by (simp_all add: setup_run_def)
  let ?p0 = "setup_or_teardown_type s"
  let ?h = "store s"
  from notify_test_event [where start = True and test = test and n = n,
      OF nr ls ok [OF m(1)] extends_refl _ tame [OF m(1)]]
  obtain s1 where 1: "notify (Suc n) (Start_test test) s = Some (Inr (), s1)"
    and r1: "\<not> recursion s1" and l1: "listeners s1 = Some ps" and rt1: "running_test s1"
    and e1: "extends ?h (store s1)" and p1: "setup_or_teardown_type s1 = ?p0"
    by auto
  from notify_keyword_type [where start = True and kw = ksetup and n = n,
      OF r1 l1 ok [OF m(2)] e1 t1 _ tame [OF m(2)]]
  obtain s2 where 2: "notify (Suc n) (Start_keyword ksetup) s1 = Some (Inr (), s2)"
    and r2: "\<not> recursion s2" and l2: "listeners s2 = Some ps" and rt2: "running_test s2"
    and e2: "extends ?h (store s2)"
    and p2: "setup_or_teardown_type s2 = (if ps = [] then ?p0 else Some ''Test Setup'')"
    and c2: "\<forall>c\<in>set (new_calls s1 s2). payload_type c = Some (PStr ''Test Setup'')"
    using rt1 p1 by (auto simp: reported_type_values)
  from notify_keyword_type [where start = True and kw = knested and n = n,
      OF r2 l2 ok [OF m(3)] e2 t2 _ tame [OF m(3)]]
  obtain s3 where 3: "notify (Suc n) (Start_keyword knested) s2 = Some (Inr (), s3)"
    and r3: "\<not> recursion s3" and l3: "listeners s3 = Some ps" and rt3: "running_test s3"
    and e3: "extends ?h (store s3)"
    and p3: "setup_or_teardown_type s3 = setup_or_teardown_type s2"
    and m3: "map receiver (new_calls s2 s3) = map name ps"
    and c3: "\<forall>c\<in>set (new_calls s2 s3). payload_type c =
               Some (PStr (reported_type ''kw'' True (setup_or_teardown_type s2)))"
    using rt2 by (auto simp: reported_type_values)
  from notify_keyword_type [where start = False and kw = knested and n = n,
      OF r3 l3 ok [OF m(4)] e3 t2 _ tame [OF m(4)]]
  obtain s4 where 4: "notify (Suc n) (End_keyword knested) s3 = Some (Inr (), s4)"
    and r4: "\<not> recursion s4" and l4: "listeners s4 = Some ps" and rt4: "running_test s4"
    and e4: "extends ?h (store s4)"
    and p4: "setup_or_teardown_type s4 = setup_or_teardown_type s2"
    and m4: "map receiver (new_calls s3 s4) = map name ps"
    and c4: "\<forall>c\<in>set (new_calls s3 s4). payload_type c =
               Some (PStr (reported_type ''kw'' True (setup_or_teardown_type s2)))"
    using rt3 p3 by (auto simp: reported_type_values)
  from notify_keyword_type [where start = False and kw = ksetup and n = n,
      OF r4 l4 ok [OF m(5)] e4 t1 _ tame [OF m(5)]]
  obtain s5 where 5: "notify (Suc n) (End_keyword ksetup) s4 = Some (Inr (), s5)"
    and r5: "\<not> recursion s5" and l5: "listeners s5 = Some ps" and rt5: "running_test s5"
    and e5: "extends ?h (store s5)"
    and p5: "setup_or_teardown_type s5 = (if ps = [] then ?p0 else None)"
    and c5: "\<forall>c\<in>set (new_calls s4 s5). payload_type c = Some (PStr ''Test Setup'')"
    using rt4 p4 p2 by (auto simp: reported_type_values)
  from notify_test_event [where start = False and test = test and n = n,
      OF r5 l5 ok [OF m(6)] e5 _ tame [OF m(6)]]
  obtain s6 where 6: "notify (Suc n) (End_test test) s5 = Some (Inr (), s6)"
    and r6: "\<not> recursion s6" and l6: "listeners s6 = Some ps" and rt6: "\<not> running_test s6"
    and e6: "extends ?h (store s6)"
    and p6: "setup_or_teardown_type s6 = setup_or_teardown_type s5"
    by auto
  from notify_keyword_type [where start = True and kw = ktop and n = n,
      OF r6 l6 ok [OF m(7)] e6 t3 _ tame [OF m(7)]]
  obtain s7 where 7: "notify (Suc n) (Start_keyword ktop) s6 = Some (Inr (), s7)"
    and m7: "map receiver (new_calls s6 s7) = map name ps"
    and c7: "\<forall>c\<in>set (new_calls s6 s7). payload_type c =
               Some (PStr (reported_type ''kw'' False (setup_or_teardown_type s5)))"
    using rt6 p6 by (auto simp: reported_type_values)
  have c34: "\<forall>c\<in>set (new_calls s2 s3 @ new_calls s3 s4).
               payload_type c = Some (PStr ''Test Setup'')"
  proof (cases "ps = []")
    case True
    with m3 m4 show ?thesis by simp
  next
    case False
    with p2 c3 c4 show ?thesis by (simp add: reported_type_values ball_Un)
  qed
  have c25: "\<forall>c\<in>set (new_calls s1 s2 @ new_calls s4 s5).
               payload_type c = Some (PStr ''Test Setup'')"
    using c2 c5 by (simp add: ball_Un)
  have c7': "\<forall>c\<in>set (new_calls s6 s7). payload_type c = Some (PStr ''Keyword'')"
  proof (cases "ps = []")
    case True
    with m7 show ?thesis by simp
  next
    case False
    with p5 c7 show ?thesis by (simp add: reported_type_values)
  qed
  show ?thesis
    apply (rule exI [where x = s1], rule exI [where x = s2], rule exI [where x = s3],
        rule exI [where x = s4], rule exI [where x = s5], rule exI [where x = s6],
        rule exI [where x = s7])
    by (intro conjI 1 2 3 4 5 6 7 m3 m4 c34 c25 p5 m7 c7')
qed

theorem setup_type_reaches_nested_keyword_witness:
  "\<not> recursion two_listeners \<and>
   listeners two_listeners =
     Some [\<lparr>name = ''Raising'', version = 2, logger = raising_listener\<rparr>,
           \<lparr>name = ''Chatty'', version = 2, logger = chatty_listener\<rparr>] \<and>
   event_ok (store two_listeners) (Start_test a_test) \<and>
   event_ok (store two_listeners) (Start_keyword (a_keyword ''Open'' ''setup'')) \<and>
   event_ok (store two_listeners) (Start_keyword (a_keyword ''Log'' ''kw'')) \<and>
   event_ok (store two_listeners) (End_keyword (a_keyword ''Log'' ''kw'')) \<and>
   event_ok (store two_listeners) (End_keyword (a_keyword ''Open'' ''setup'')) \<and>
   event_ok (store two_listeners) (End_test a_test) \<and>
   event_ok (store two_listeners) (Start_keyword (a_keyword ''Top'' ''kw'')) \<and>
   outcome (target \<lparr>name = ''Raising'', version = 2, logger = raising_listener\<rparr>
     (Start_test a_test)) = Inr () \<and>
   outcome (target \<lparr>name = ''Chatty'', version = 2, logger = chatty_listener\<rparr>
     (Start_test a_test)) = Inr () \<and>
   outcome (target \<lparr>name = ''Raising'', version = 2, logger = raising_listener\<rparr>
     (Start_keyword (a_keyword ''Open'' ''setup''))) = Inr () \<and>
   outcome (target \<lparr>name = ''Chatty'', version = 2, logger = chatty_listener\<rparr>
     (Start_keyword (a_keyword ''Open'' ''setup''))) = Inr () \<and>
   outcome (target \<lparr>name = ''Raising'', version = 2, logger = raising_listener\<rparr>
     (Start_keyword (a_keyword ''Log'' ''kw''))) = Inr () \<and>
   outcome (target \<lparr>name = ''Chatty'', version = 2, logger = chatty_listener\<rparr>
     (Start_keyword (a_keyword ''Log'' ''kw''))) = Inr () \<and>
   outcome (target \<lparr>name = ''Raising'', version = 2, logger = raising_listener\<rparr>
     (End_keyword (a_keyword ''Log'' ''kw''))) = Inr () \<and>
   outcome (target \<lparr>name = ''Chatty'', version = 2, logger = chatty_listener\<rparr>
     (End_keyword (a_keyword ''Log'' ''kw''))) = Inr () \<and>
   outcome (target \<lparr>name = ''Raising'', version = 2, logger = raising_listener\<rparr>
     (End_keyword (a_keyword ''Open'' ''setup''))) = Inr () \<and>
   outcome (target \<lparr>name = ''Chatty'', version = 2, logger = chatty_listener\<rparr>
     (End_keyword (a_keyword ''Open'' ''setup''))) = Inr () \<and>
   outcome (target \<lparr>name = ''Raising'', version = 2, logger = raising_listener\<rparr>
     (End_test a_test)) = Inr () \<and>
   outcome (target \<lparr>name = ''Chatty'', version = 2, logger = chatty_listener\<rparr>
     (End_test a_test)) = Inr () \<and>
   outcome (target \<lparr>name = ''Raising'', version = 2, logger = raising_listener\<rparr>
     (Start_keyword (a_keyword ''Top'' ''kw''))) = Inr () \<and>
   outcome (target \<lparr>name = ''Chatty'', version = 2, logger = chatty_listener\<rparr>
     (Start_keyword (a_keyword ''Top'' ''kw''))) = Inr () \<and>
   getattr (a_keyword ''Open'' ''setup'') ''type'' = Inr (PStr ''setup'') \<and>
   getattr (a_keyword ''Log'' ''kw'') ''type'' = Inr (PStr ''kw'') \<and>
   getattr (a_keyword ''Top'' ''kw'') ''type'' = Inr (PStr ''kw'') \<and>
   (\<exists>s1 s2 s3 s4 s5 s6 s7.
      notify (Suc 0) (Start_test a_test) two_listeners = Some (Inr (), s1) \<and>
      notify (Suc 0) (Start_keyword (a_keyword ''Open'' ''setup'')) s1 = Some (Inr (), s2) \<and>
      notify (Suc 0) (Start_keyword (a_keyword ''Log'' ''kw'')) s2 = Some (Inr (), s3) \<and>
      notify (Suc 0) (End_keyword (a_keyword ''Log'' ''kw'')) s3 = Some (Inr (), s4) \<and>
      notify (Suc 0) (End_keyword (a_keyword ''Open'' ''setup'')) s4 = Some (Inr (), s5) \<and>
      notify (Suc 0) (End_test a_test) s5 = Some (Inr (), s6) \<and>
      notify (Suc 0) (Start_keyword (a_keyword ''Top'' ''kw'')) s6 = Some (Inr (), s7) \<and>
      map receiver (new_calls s2 s3) = [''Raising'', ''Chatty''] \<and>
      map payload_type (new_calls s2 s3) =
        [Some (PStr ''Test Setup''), Some (PStr ''Test Setup'')] \<and>
      map receiver (new_calls s3 s4) = [''Raising'', ''Chatty''] \<and>
      map payload_type (new_calls s3 s4) =
        [Some (PStr ''Test Setup''), Some (PStr ''Test Setup'')] \<and>
      setup_or_teardown_type s5 = None \<and>
      map receiver (new_calls s6 s7) = [''Raising'', ''Chatty''] \<and>
      map payload_type (new_calls s6 s7) = [Some (PStr ''Keyword''), Some (PStr ''Keyword'')])"
proof -
  let ?ps = "[\<lparr>name = ''Raising'', version = 2, logger = raising_listener\<rparr>,
           \<lparr>name = ''Chatty'', version = 2, logger = chatty_listener\<rparr>]"
  have k: "event_ok (store two_listeners) (Start_keyword (a_keyword nm ty))"
    "event_ok (store two_listeners) (End_keyword (a_keyword nm ty))" for nm ty
    by (simp_all add: event_ok_def a_keyword_def getattr_def kw_attr_names has_str_type_def)
  have u: "event_ok (store two_listeners) (Start_test a_test)"
    "event_ok (store two_listeners) (End_test a_test)"
    by (simp_all add: event_ok_def a_test_def getattr_def start_attrs_def end_attrs_def)
  have o: "outcome (target p ev) = Inr ()" if "p \<in> set ?ps" for p ev
    using that
    by (cases ev)
      (auto simp: outcome_def target_def event_method_def raising_listener_def
        chatty_listener_def no_method_def reraised_exceptions_def)
  have o1: "outcome (target \<lparr>name = ''Raising'', version = 2, logger = raising_listener\<rparr> ev) = Inr ()" for ev
    by (rule o) simp
  have o2: "outcome (target \<lparr>name = ''Chatty'', version = 2, logger = chatty_listener\<rparr> ev) = Inr ()" for ev
    by (rule o) simp
  have e: "\<forall>ev\<in>set (setup_run a_test (a_keyword ''Open'' ''setup'') (a_keyword ''Log'' ''kw'')
               (a_keyword ''Top'' ''kw'')).
      event_ok (store two_listeners) ev \<and> (\<forall>p\<in>set ?ps. outcome (target p ev) = Inr ())"
    by (simp add: setup_run_def k u o)
  have t: "getattr (a_keyword ''Open'' ''setup'') ''type'' = Inr (PStr ''setup'')"
    "getattr (a_keyword ''Log'' ''kw'') ''type'' = Inr (PStr ''kw'')"
    "getattr (a_keyword ''Top'' ''kw'') ''type'' = Inr (PStr ''kw'')"
    by (simp_all add: a_keyword_def getattr_def)
  from setup_type_reaches_nested_keyword [OF two_listeners_fields(1,2) e t, of 0]
  obtain s1 s2 s3 s4 s5 s6 s7 where
    n: "notify (Suc 0) (Start_test a_test) two_listeners = Some (Inr (), s1)"
      "notify (Suc 0) (Start_keyword (a_keyword ''Open'' ''setup'')) s1 = Some (Inr (), s2)"
      "notify (Suc 0) (Start_keyword (a_keyword ''Log'' ''kw'')) s2 = Some (Inr (), s3)"
      "notify (Suc 0) (End_keyword (a_keyword ''Log'' ''kw'')) s3 = Some (Inr (), s4)"
      "notify (Suc 0) (End_keyword (a_keyword ''Open'' ''setup'')) s4 = Some (Inr (), s5)"
      "notify (Suc 0) (End_test a_test) s5 = Some (Inr (), s6)"
      "notify (Suc 0) (Start_keyword (a_keyword ''Top'' ''kw'')) s6 = Some (Inr (), s7)"
    and m3: "map receiver (new_calls s2 s3) = map name ?ps"
    and m4: "map receiver (new_calls s3 s4) = map name ?ps"
    and c34: "\<forall>c\<in>set (new_calls s2 s3 @ new_calls s3 s4).
              payload_type c = Some (PStr ''Test Setup'')"
    and p5: "setup_or_teardown_type s5 =
               (if ?ps = [] then setup_or_teardown_type two_listeners else None)"
    and m7: "map receiver (new_calls s6 s7) = map name ?ps"
    and c7: "\<forall>c\<in>set (new_calls s6 s7). payload_type c = Some (PStr ''Keyword'')"
    by (elim exE conjE) (rule that)
  have m3': "map receiver (new_calls s2 s3) = [''Raising'', ''Chatty'']" using m3 by simp
  have m4': "map receiver (new_calls s3 s4) = [''Raising'', ''Chatty'']" using m4 by simp
  have m7': "map receiver (new_calls s6 s7) = [''Raising'', ''Chatty'']" using m7 by simp
  have p5': "setup_or_teardown_type s5 = None" using p5 by simp
  have c3': "map payload_type (new_calls s2 s3) =
      [Some (PStr ''Test Setup''), Some (PStr ''Test Setup'')]"
    by (rule map_of_two [OF m3']) (use c34 in simp)
  have c4': "map payload_type (new_calls s3 s4) =
      [Some (PStr ''Test Setup''), Some (PStr ''Test Setup'')]"
    by (rule map_of_two [OF m4']) (use c34 in simp)
  have c7': "map payload_type (new_calls s6 s7) = [Some (PStr ''Keyword''), Some (PStr ''Keyword'')]"
    by (rule map_of_two [OF m7']) (use c7 in simp)
  have c: "\<exists>s1 s2 s3 s4 s5 s6 s7.
      notify (Suc 0) (Start_test a_test) two_listeners = Some (Inr (), s1) \<and>
      notify (Suc 0) (Start_keyword (a_keyword ''Open'' ''setup'')) s1 = Some (Inr (), s2) \<and>
      notify (Suc 0) (Start_keyword (a_keyword ''Log'' ''kw'')) s2 = Some (Inr (), s3) \<and>
      notify (Suc 0) (End_keyword (a_keyword ''Log'' ''kw'')) s3 = Some (Inr (), s4) \<and>
      notify (Suc 0) (End_keyword (a_keyword ''Open'' ''setup'')) s4 = Some (Inr (), s5) \<and>
      notify (Suc 0) (End_test a_test) s5 = Some (Inr (), s6) \<and>
      notify (Suc 0) (Start_keyword (a_keyword ''Top'' ''kw'')) s6 = Some (Inr (), s7) \<and>
      map receiver (new_calls s2 s3) = [''Raising'', ''Chatty''] \<and>
      map payload_type (new_calls s2 s3) =
        [Some (PStr ''Test Setup''), Some (PStr ''Test Setup'')] \<and>
      map receiver (new_calls s3 s4) = [''Raising'', ''Chatty''] \<and>
      map payload_type (new_calls s3 s4) =
        [Some (PStr ''Test Setup''), Some (PStr ''Test Setup'')] \<and>
      setup_or_teardown_type s5 = None \<and>
      map receiver (new_calls s6 s7) = [''Raising'', ''Chatty''] \<and>
      map payload_type (new_calls s6 s7) = [Some (PStr ''Keyword''), Some (PStr ''Keyword'')]"
    apply (rule exI [where x = s1], rule exI [where x = s2], rule exI [where x = s3],
        rule exI [where x = s4], rule exI [where x = s5], rule exI [where x = s6],
        rule exI [where x = s7])
    by (intro conjI n m3' c3' m4' c4' p5' m7' c7')
  show ?thesis by (intro conjI two_listeners_fields(1,2) k u o1 o2 t c)
qed

end
